theory Spec2Isabelle
  imports Complex_Main "HOL-Library.Multiset"
begin

section \<open>QuickChess: the search and evaluation engine of popup.js\<close>

text \<open>
  The class \<^verbatim>\<open>QuickChess\<close> of \<^verbatim>\<open>popup.js\<close> plays black against a human who plays
  white. It keeps a chess.js game object in \<^verbatim>\<open>this.game\<close> and searches it with
  \<^verbatim>\<open>findBestMove\<close>, \<^verbatim>\<open>minimax\<close> and \<^verbatim>\<open>evaluatePosition\<close>. The chess.js library is not
  part of the sources, so the game object is a parameter of every definition below: a
  record of the operations the class calls on it, over an arbitrary type \<open>'g\<close> of game
  states.
\<close>

subsection \<open>Pieces, boards and moves as chess.js presents them\<close>

datatype color = WHITE | BLACK

datatype piece_type = PAWN | KNIGHT | BISHOP | ROOK | QUEEN | KING

record piece =
  type :: piece_type
  color :: color

text \<open>\<^verbatim>\<open>game.board()\<close>: eight rows of eight squares, row 0 being rank 8; an empty square
  is \<^verbatim>\<open>null\<close>.\<close>

type_synonym board = "piece option list list"

text \<open>A verbose move object of \<^verbatim>\<open>game.moves({ verbose: true })\<close>. The fields \<^verbatim>\<open>from\<close> and
  \<^verbatim>\<open>to\<close> are renamed, \<open>from\<close> being a keyword here. \<^verbatim>\<open>captured\<close> is absent on a move
  that captures nothing.\<close>

record vmove =
  from_sq :: string
  to_sq :: string
  captured :: "piece_type option"
  promotion :: "piece_type option"

text \<open>What \<^verbatim>\<open>game.move(m)\<close> can do: return a move object after changing the position,
  return \<^verbatim>\<open>null\<close> and change nothing, or throw. A throwing call is modelled as leaving
  the game as it was when the call was made.\<close>

datatype 'g applied = Applied 'g | Rejected | Raised

record 'g engine =
  turn :: "'g \<Rightarrow> color"
  game_over :: "'g \<Rightarrow> bool"
  in_checkmate :: "'g \<Rightarrow> bool"
  in_stalemate :: "'g \<Rightarrow> bool"
  in_threefold_repetition :: "'g \<Rightarrow> bool"
  insufficient_material :: "'g \<Rightarrow> bool"
  in_draw :: "'g \<Rightarrow> bool"
  board :: "'g \<Rightarrow> board"
  moves :: "'g \<Rightarrow> vmove list"
  move :: "'g \<Rightarrow> vmove \<Rightarrow> 'g applied"
  undo :: "'g \<Rightarrow> 'g"

subsection \<open>The evaluator\<close>

definition pieceValues :: "piece_type \<Rightarrow> real" where
  "pieceValues t = (case t of PAWN \<Rightarrow> 100 | KNIGHT \<Rightarrow> 320 | BISHOP \<Rightarrow> 330
     | ROOK \<Rightarrow> 500 | QUEEN \<Rightarrow> 900 | KING \<Rightarrow> 20000)"

definition pawnTable :: "real list list" where
  "pawnTable =
    [[0,  0,  0,  0,  0,  0,  0,  0],
     [50, 50, 50, 50, 50, 50, 50, 50],
     [10, 10, 20, 30, 30, 20, 10, 10],
     [5,  5, 10, 25, 25, 10,  5,  5],
     [0,  0,  0, 20, 20,  0,  0,  0],
     [5, -5,-10,  0,  0,-10, -5,  5],
     [5, 10, 10,-20,-20, 10, 10,  5],
     [0,  0,  0,  0,  0,  0,  0,  0]]"

definition knightTable :: "real list list" where
  "knightTable =
    [[-50,-40,-30,-30,-30,-30,-40,-50],
     [-40,-20,  0,  0,  0,  0,-20,-40],
     [-30,  0, 10, 15, 15, 10,  0,-30],
     [-30,  5, 15, 20, 20, 15,  5,-30],
     [-30,  0, 15, 20, 20, 15,  0,-30],
     [-30,  5, 10, 15, 15, 10,  5,-30],
     [-40,-20,  0,  5,  5,  0,-20,-40],
     [-50,-40,-30,-30,-30,-30,-40,-50]]"

definition bishopTable :: "real list list" where
  "bishopTable =
    [[-20,-10,-10,-10,-10,-10,-10,-20],
     [-10,  0,  0,  0,  0,  0,  0,-10],
     [-10,  0,  5, 10, 10,  5,  0,-10],
     [-10,  5,  5, 10, 10,  5,  5,-10],
     [-10,  0, 10, 10, 10, 10,  0,-10],
     [-10, 10, 10, 10, 10, 10, 10,-10],
     [-10,  5,  0,  0,  0,  0,  5,-10],
     [-20,-10,-10,-10,-10,-10,-10,-20]]"

definition rookTable :: "real list list" where
  "rookTable =
    [[0,  0,  0,  0,  0,  0,  0,  0],
     [5, 10, 10, 10, 10, 10, 10,  5],
     [-5,  0,  0,  0,  0,  0,  0, -5],
     [-5,  0,  0,  0,  0,  0,  0, -5],
     [-5,  0,  0,  0,  0,  0,  0, -5],
     [-5,  0,  0,  0,  0,  0,  0, -5],
     [-5,  0,  0,  0,  0,  0,  0, -5],
     [0,  0,  0,  5,  5,  0,  0,  0]]"

definition queenTable :: "real list list" where
  "queenTable =
    [[-20,-10,-10, -5, -5,-10,-10,-20],
     [-10,  0,  0,  0,  0,  0,  0,-10],
     [-10,  0,  5,  5,  5,  5,  0,-10],
     [-5,  0,  5,  5,  5,  5,  0, -5],
     [0,  0,  5,  5,  5,  5,  0, -5],
     [-10,  5,  5,  5,  5,  5,  0,-10],
     [-10,  0,  5,  0,  0,  0,  0,-10],
     [-20,-10,-10, -5, -5,-10,-10,-20]]"

definition kingMiddleGameTable :: "real list list" where
  "kingMiddleGameTable =
    [[-30,-40,-40,-50,-50,-40,-40,-30],
     [-30,-40,-40,-50,-50,-40,-40,-30],
     [-30,-40,-40,-50,-50,-40,-40,-30],
     [-30,-40,-40,-50,-50,-40,-40,-30],
     [-20,-30,-30,-40,-40,-30,-30,-20],
     [-10,-20,-20,-20,-20,-20,-20,-10],
     [20, 20,  0,  0,  0,  0, 20, 20],
     [20, 30, 10,  0,  0, 10, 30, 20]]"

text \<open>\<^verbatim>\<open>getPieceValue(piece, row, col)\<close>. The \<^verbatim>\<open>default\<close> branch of the switch has no
  counterpart: every piece type has its table. Rows and columns are those of the loops of
  \<^verbatim>\<open>evaluatePosition\<close>, below 8.\<close>

definition getPieceValue :: "piece \<Rightarrow> nat \<Rightarrow> nat \<Rightarrow> real" where
  "getPieceValue pc row col =
    (let baseValue = pieceValues (type pc);
         table = (case type pc of PAWN \<Rightarrow> pawnTable | KNIGHT \<Rightarrow> knightTable
                   | BISHOP \<Rightarrow> bishopTable | ROOK \<Rightarrow> rookTable | QUEEN \<Rightarrow> queenTable
                   | KING \<Rightarrow> kingMiddleGameTable);
         tableRow = (if color pc = BLACK then row else 7 - row);
         positionalValue = table ! tableRow ! col
     in baseValue + positionalValue)"

text \<open>The test \<^verbatim>\<open>piece && piece.type === t && piece.color === c\<close> of the two helper
  evaluations.\<close>

definition is_piece :: "board \<Rightarrow> piece_type \<Rightarrow> color \<Rightarrow> nat \<Rightarrow> nat \<Rightarrow> bool" where
  "is_piece brd t c i j =
    (case brd ! i ! j of None \<Rightarrow> False | Some pc \<Rightarrow> type pc = t \<and> color pc = c)"

text \<open>\<^verbatim>\<open>evaluateKingSafety(color)\<close>: the king found first in row-major order, then the
  three squares of the row in front of it. The shield row may fall off the board, so it is
  an integer.\<close>

definition evaluateKingSafety :: "'g engine \<Rightarrow> 'g \<Rightarrow> color \<Rightarrow> real" where
  "evaluateKingSafety E g c =
    (let brd = board E g;
         kingPos = List.find (\<lambda>(i, j). is_piece brd KING c i j)
                     (List.product [0..<8] [0..<8])
     in case kingPos of
          None \<Rightarrow> 0
        | Some (row, col) \<Rightarrow>
            (let direction = (if c = WHITE then - 1 else (1::int));
                 shieldRow = int row + direction
             in if 0 \<le> shieldRow \<and> shieldRow < 8
                then (\<Sum>colOffset \<leftarrow> [- 1, 0, 1 :: int].
                        (let cl = int col + colOffset
                         in if 0 \<le> cl \<and> cl < 8 \<and> is_piece brd PAWN c (nat shieldRow) (nat cl)
                            then 10 else 0))
                else 0))"

text \<open>\<^verbatim>\<open>evaluatePawnStructure(color)\<close>: for each file the pawns on it and whether a
  neighbouring file holds one.\<close>

definition evaluatePawnStructure :: "'g engine \<Rightarrow> 'g \<Rightarrow> color \<Rightarrow> real" where
  "evaluatePawnStructure E g c =
    (let brd = board E g
     in (\<Sum>col \<leftarrow> [0..<8].
          (let pawnsInCol = length (filter (\<lambda>row. is_piece brd PAWN c row col) [0..<8]);
               hasPawnInAdjacentCol =
                 (\<exists>adjacentCol \<in> set [int col - 1, int col + 1].
                     0 \<le> adjacentCol \<and> adjacentCol < 8 \<and>
                     (\<exists>row \<in> set [0..<8]. is_piece brd PAWN c row (nat adjacentCol)))
           in (if pawnsInCol > 1 then - (10 * (real pawnsInCol - 1)) else 0)
              + (if pawnsInCol > 0 \<and> \<not> hasPawnInAdjacentCol then - 15 else 0))))"

text \<open>\<^verbatim>\<open>evaluatePosition()\<close>. JavaScript numbers are modelled as reals, so the rounding of
  \<^verbatim>\<open>currentMoves * 0.1\<close> is not represented. \<^verbatim>\<open>game.moves()\<close> and the verbose form list
  the same moves, so one field of the engine serves both.\<close>

definition evaluatePosition :: "'g engine \<Rightarrow> 'g \<Rightarrow> real" where
  "evaluatePosition E g =
    (if in_checkmate E g then (if turn E g = BLACK then 10000 else - 10000)
     else if in_stalemate E g \<or> in_threefold_repetition E g
             \<or> insufficient_material E g \<or> in_draw E g then 0
     else
      (let brd = board E g;
           material = (\<Sum>i \<leftarrow> [0..<8]. \<Sum>j \<leftarrow> [0..<8].
                         (case brd ! i ! j of
                            None \<Rightarrow> 0
                          | Some pc \<Rightarrow> (if color pc = BLACK then getPieceValue pc i j
                                         else - getPieceValue pc i j)));
           currentMoves = length (moves E g);
           mobility = (if turn E g = BLACK then real currentMoves * (1 / 10)
                       else - (real currentMoves * (1 / 10)));
           kingSafety = evaluateKingSafety E g BLACK - evaluateKingSafety E g WHITE;
           pawnStructure = evaluatePawnStructure E g BLACK - evaluatePawnStructure E g WHITE
       in material + mobility + kingSafety + pawnStructure))"

subsection \<open>A concrete game object: positions arranged in a tree\<close>

text \<open>
  Concrete inputs are game trees: every node carries what the queries of chess.js answer
  there and, for each legal move, the position it leads to. A \<open>Fault\<close> child stands for a
  move whose application throws. The state of the game object is the stack of nodes from
  the current position back to the first one, which is what \<^verbatim>\<open>undo\<close> pops.
\<close>

record position =
  p_turn :: color
  p_checkmate :: bool
  p_stalemate :: bool
  p_threefold :: bool
  p_insufficient :: bool
  p_draw :: bool
  p_board :: board

datatype tree = Node position "(vmove \<times> tree) list" | Fault

fun node_position :: "tree \<Rightarrow> position option" where
  "node_position (Node p cs) = Some p"
| "node_position Fault = None"

fun children :: "tree \<Rightarrow> (vmove \<times> tree) list" where
  "children (Node p cs) = cs"
| "children Fault = []"

definition empty_board :: board where
  "empty_board = replicate 8 (replicate 8 None)"

definition query :: "(position \<Rightarrow> 'a) \<Rightarrow> 'a \<Rightarrow> tree list \<Rightarrow> 'a" where
  "query f d st = (case st of [] \<Rightarrow> d
     | t # _ \<Rightarrow> (case node_position t of None \<Rightarrow> d | Some p \<Rightarrow> f p))"

definition tree_moves :: "tree list \<Rightarrow> vmove list" where
  "tree_moves st = (case st of [] \<Rightarrow> [] | t # _ \<Rightarrow> map fst (children t))"

definition tree_move :: "tree list \<Rightarrow> vmove \<Rightarrow> tree list applied" where
  "tree_move st m = (case st of [] \<Rightarrow> Rejected
     | t # _ \<Rightarrow> (case map_of (children t) m of
                   None \<Rightarrow> Rejected
                 | Some Fault \<Rightarrow> Raised
                 | Some (Node p cs) \<Rightarrow> Applied (Node p cs # st)))"

definition tree_engine :: "tree list engine" where
  "tree_engine =
    \<lparr> turn = query p_turn WHITE,
      game_over = query (\<lambda>p. p_checkmate p \<or> p_stalemate p \<or> p_threefold p
                              \<or> p_insufficient p \<or> p_draw p) False,
      in_checkmate = query p_checkmate False,
      in_stalemate = query p_stalemate False,
      in_threefold_repetition = query p_threefold False,
      insufficient_material = query p_insufficient False,
      in_draw = query p_draw False,
      board = query p_board empty_board,
      moves = tree_moves,
      move = tree_move,
      undo = tl \<rparr>"

text \<open>A position in play: no terminal flag set.\<close>

definition in_play :: "color \<Rightarrow> board \<Rightarrow> position" where
  "in_play c brd = \<lparr> p_turn = c, p_checkmate = False, p_stalemate = False,
     p_threefold = False, p_insufficient = False, p_draw = False, p_board = brd \<rparr>"

definition mk_move :: "string \<Rightarrow> string \<Rightarrow> vmove" where
  "mk_move a b = \<lparr> from_sq = a, to_sq = b, captured = None, promotion = None \<rparr>"

definition pce :: "color \<Rightarrow> piece_type \<Rightarrow> piece option" where
  "pce c t = Some \<lparr> type = t, color = c \<rparr>"

text \<open>The board of a new game, as \<^verbatim>\<open>new Chess().board()\<close> returns it.\<close>

definition back_rank :: "color \<Rightarrow> piece option list" where
  "back_rank c = map (pce c) [ROOK, KNIGHT, BISHOP, QUEEN, KING, BISHOP, KNIGHT, ROOK]"

definition start_board :: board where
  "start_board =
    [back_rank BLACK, replicate 8 (pce BLACK PAWN),
     replicate 8 None, replicate 8 None, replicate 8 None, replicate 8 None,
     replicate 8 (pce WHITE PAWN), back_rank WHITE]"

text \<open>The twenty legal first moves of White: sixteen pawn moves and four knight moves.
  What follows each of them is cut off; the evaluation of the starting position does not
  look there.\<close>

definition start_moves :: "vmove list" where
  "start_moves =
    concat (map (\<lambda>f. [mk_move [f, CHR ''2''] [f, CHR ''3''], mk_move [f, CHR ''2''] [f, CHR ''4'']])
                ''abcdefgh'')
    @ [mk_move ''b1'' ''a3'', mk_move ''b1'' ''c3'', mk_move ''g1'' ''f3'', mk_move ''g1'' ''h3'']"

definition start_tree :: tree where
  "start_tree = Node (in_play WHITE start_board)
                     (map (\<lambda>m. (m, Node (in_play BLACK start_board) [])) start_moves)"

text \<open>Fool's mate: after 1. f3 e5 2. g4 Qh4 White is to move and is checkmated.\<close>

definition fools_mate_board :: board where
  "fools_mate_board =
    [[pce BLACK ROOK, pce BLACK KNIGHT, pce BLACK BISHOP, None, pce BLACK KING,
        pce BLACK BISHOP, pce BLACK KNIGHT, pce BLACK ROOK],
     [pce BLACK PAWN, pce BLACK PAWN, pce BLACK PAWN, pce BLACK PAWN, None,
        pce BLACK PAWN, pce BLACK PAWN, pce BLACK PAWN],
     replicate 8 None,
     [None, None, None, None, pce BLACK PAWN, None, None, None],
     [None, None, None, None, None, None, pce WHITE PAWN, pce BLACK QUEEN],
     [None, None, None, None, None, pce WHITE PAWN, None, None],
     [pce WHITE PAWN, pce WHITE PAWN, pce WHITE PAWN, pce WHITE PAWN, pce WHITE PAWN,
        None, None, pce WHITE PAWN],
     back_rank WHITE]"

definition fools_mate :: tree where
  "fools_mate = Node ((in_play WHITE fools_mate_board) \<lparr> p_checkmate := True \<rparr>) []"

subsection \<open>Numbers with the two infinities\<close>

text \<open>\<^verbatim>\<open>alpha\<close>, \<^verbatim>\<open>beta\<close>, \<^verbatim>\<open>bestValue\<close>, \<^verbatim>\<open>maxEval\<close> and \<^verbatim>\<open>minEval\<close> start at
  \<^verbatim>\<open>-Infinity\<close> or \<^verbatim>\<open>Infinity\<close>; the search compares them, takes \<^verbatim>\<open>Math.max\<close> and
  \<^verbatim>\<open>Math.min\<close> and negates them.\<close>

datatype num = MInf | Fin real | PInf

instantiation num :: "{linorder, uminus}"
begin

fun less_eq_num :: "num \<Rightarrow> num \<Rightarrow> bool" where
  "less_eq_num MInf y = True"
| "less_eq_num (Fin a) MInf = False"
| "less_eq_num (Fin a) (Fin b) = (a \<le> b)"
| "less_eq_num (Fin a) PInf = True"
| "less_eq_num PInf PInf = True"
| "less_eq_num PInf y = False"

definition less_num :: "num \<Rightarrow> num \<Rightarrow> bool" where
  "less_num x y = (x \<le> y \<and> \<not> y \<le> x)"

fun uminus_num :: "num \<Rightarrow> num" where
  "uminus_num MInf = PInf"
| "uminus_num (Fin a) = Fin (- a)"
| "uminus_num PInf = MInf"

instance
proof
  fix x y z :: num
  show "(x < y) = (x \<le> y \<and> \<not> y \<le> x)" by (simp add: less_num_def)
  show "x \<le> x" by (cases x) simp_all
  show "x \<le> y \<Longrightarrow> y \<le> z \<Longrightarrow> x \<le> z" by (cases x; cases y; cases z) simp_all
  show "x \<le> y \<Longrightarrow> y \<le> x \<Longrightarrow> x = y" by (cases x; cases y) simp_all
  show "x \<le> y \<or> y \<le> x" by (cases x; cases y) auto
qed

end

subsection \<open>The search\<close>

text \<open>The fields of the \<^verbatim>\<open>QuickChess\<close> object that the search reads and writes: the game
  and the node counter. A call either returns a value or throws; both leave a state
  behind.\<close>

record 'g quickchess =
  game :: 'g
  nodeCount :: nat

datatype ('a, 's) outcome = Returns 'a 's | Throws 's

text \<open>
  \<^verbatim>\<open>minimax(depth, alpha, beta, isMaximizing)\<close> and its two \<^verbatim>\<open>for\<close> loops call each other.
  Nothing in the code keeps \<^verbatim>\<open>depth\<close> from being negative, and then the recursion need
  not end, so the three are one partial function on the frames of the computation: the
  result \<open>None\<close> means that the call does not return. A loop frame carries the loop's
  variables and the moves still to be tried. The pause of every 500th node
  (\<^verbatim>\<open>await new Promise(...)\<close>) changes no variable and is left out.
\<close>

datatype 'g frame =
    Minimax int num num bool "'g quickchess"
  | MaxLoop int num num num "vmove list" "'g quickchess"
  | MinLoop int num num num "vmove list" "'g quickchess"

partial_function (option) search ::
  "'g engine \<Rightarrow> 'g frame \<Rightarrow> (num, 'g quickchess) outcome option" where
  "search E fr = (case fr of
     Minimax depth alpha beta isMaximizing s0 \<Rightarrow>
       (let s = s0\<lparr>nodeCount := nodeCount s0 + 1\<rparr> in
        if depth = 0 \<or> game_over E (game s)
        then Some (Returns (Fin (evaluatePosition E (game s))) s)
        else (let ms = moves E (game s) in
          if length ms = 0 then Some (Returns (Fin (evaluatePosition E (game s))) s)
          else if isMaximizing then search E (MaxLoop depth alpha beta MInf ms s)
          else search E (MinLoop depth alpha beta PInf ms s)))
   | MaxLoop depth alpha beta maxEval ms s \<Rightarrow>
       (case ms of
          [] \<Rightarrow> Some (Returns maxEval s)
        | m # rest \<Rightarrow>
           (case move E (game s) m of
              Raised \<Rightarrow> Some (Throws s)
            | Rejected \<Rightarrow> search E (MaxLoop depth alpha beta maxEval rest s)
            | Applied g' \<Rightarrow>
                Option.bind (search E (Minimax (depth - 1) alpha beta False (s\<lparr>game := g'\<rparr>)))
                 (\<lambda>r. case r of
                    Throws s' \<Rightarrow> Some (Throws s')
                  | Returns eval_score s1 \<Rightarrow>
                     (let s2 = s1\<lparr>game := undo E (game s1)\<rparr>;
                          maxEval' = max maxEval eval_score;
                          alpha' = max alpha eval_score
                      in if beta \<le> alpha' then Some (Returns maxEval' s2)
                         else search E (MaxLoop depth alpha' beta maxEval' rest s2)))))
   | MinLoop depth alpha beta minEval ms s \<Rightarrow>
       (case ms of
          [] \<Rightarrow> Some (Returns minEval s)
        | m # rest \<Rightarrow>
           (case move E (game s) m of
              Raised \<Rightarrow> Some (Throws s)
            | Rejected \<Rightarrow> search E (MinLoop depth alpha beta minEval rest s)
            | Applied g' \<Rightarrow>
                Option.bind (search E (Minimax (depth - 1) alpha beta True (s\<lparr>game := g'\<rparr>)))
                 (\<lambda>r. case r of
                    Throws s' \<Rightarrow> Some (Throws s')
                  | Returns eval_score s1 \<Rightarrow>
                     (let s2 = s1\<lparr>game := undo E (game s1)\<rparr>;
                          minEval' = min minEval eval_score;
                          beta' = min beta eval_score
                      in if beta' \<le> alpha then Some (Returns minEval' s2)
                         else search E (MinLoop depth alpha beta' minEval' rest s2))))))"

declare search.simps [code]

definition minimax ::
  "'g engine \<Rightarrow> int \<Rightarrow> num \<Rightarrow> num \<Rightarrow> bool \<Rightarrow> 'g quickchess
     \<Rightarrow> (num, 'g quickchess) outcome option" where
  "minimax E depth alpha beta isMaximizing s = search E (Minimax depth alpha beta isMaximizing s)"

definition maxLoop ::
  "'g engine \<Rightarrow> int \<Rightarrow> num \<Rightarrow> num \<Rightarrow> num \<Rightarrow> vmove list \<Rightarrow> 'g quickchess
     \<Rightarrow> (num, 'g quickchess) outcome option" where
  "maxLoop E depth alpha beta maxEval ms s = search E (MaxLoop depth alpha beta maxEval ms s)"

definition minLoop ::
  "'g engine \<Rightarrow> int \<Rightarrow> num \<Rightarrow> num \<Rightarrow> num \<Rightarrow> vmove list \<Rightarrow> 'g quickchess
     \<Rightarrow> (num, 'g quickchess) outcome option" where
  "minLoop E depth alpha beta minEval ms s = search E (MinLoop depth alpha beta minEval ms s)"

subsection \<open>Random draws, shuffling and move ordering\<close>

text \<open>
  \<^verbatim>\<open>Math.random()\<close> is an input: a sequence \<open>R\<close> of draws, \<open>R 0\<close> being the next one and
  \<open>R \<circ> Suc\<close> what is left after it. Each draw lies in the interval from 0 (included) to 1
  (excluded).
\<close>

definition draws :: "(nat \<Rightarrow> real) \<Rightarrow> bool" where
  "draws R = (\<forall>k. 0 \<le> R k \<and> R k < 1)"

text \<open>\<^verbatim>\<open>shuffleArray(array)\<close>: \<open>shuffleFrom i\<close> is the loop from index \<open>i\<close> down to 1; it
  returns the array and the draws left. On an empty array \<^verbatim>\<open>array.length - 1\<close> is \<open>-1\<close> and
  the loop does not run, as with the truncated subtraction here.\<close>

fun shuffleFrom :: "nat \<Rightarrow> (nat \<Rightarrow> real) \<Rightarrow> 'a list \<Rightarrow> 'a list \<times> (nat \<Rightarrow> real)" where
  "shuffleFrom 0 R array = (array, R)"
| "shuffleFrom (Suc i) R array =
    (let j = nat \<lfloor>R 0 * (real (Suc i) + 1)\<rfloor>
     in shuffleFrom i (R \<circ> Suc) (array[Suc i := array ! j, j := array ! Suc i]))"

definition shuffleArray :: "(nat \<Rightarrow> real) \<Rightarrow> 'a list \<Rightarrow> 'a list \<times> (nat \<Rightarrow> real)" where
  "shuffleArray R array = shuffleFrom (length array - 1) R array"

definition is_capture :: "vmove \<Rightarrow> bool" where
  "is_capture m = (captured m \<noteq> None)"

definition orderMoves :: "(nat \<Rightarrow> real) \<Rightarrow> vmove list \<Rightarrow> vmove list" where
  "orderMoves R ms =
    (let captures = filter is_capture ms;
         others = filter (\<lambda>m. \<not> is_capture m) ms;
         (captures', R') = shuffleArray R captures;
         (others', R'') = shuffleArray R' others
     in captures' @ others')"

text \<open>
  The indices \<^verbatim>\<open>j\<close> that \<^verbatim>\<open>shuffleArray\<close> draws, in the order of the loop: one for each
  \<open>i\<close> from the last index down to 1, each among \<open>0, ..., i\<close>. \<^verbatim>\<open>orderMoves\<close> draws first for
  the captures and then, from the draws that are left, for the other moves.
\<close>

fun picks :: "nat \<Rightarrow> (nat \<Rightarrow> real) \<Rightarrow> nat list" where
  "picks 0 R = []"
| "picks (Suc i) R = nat \<lfloor>R 0 * (real (Suc i) + 1)\<rfloor> # picks i (R \<circ> Suc)"

definition orderPicks :: "(nat \<Rightarrow> real) \<Rightarrow> vmove list \<Rightarrow> nat list \<times> nat list" where
  "orderPicks R ms =
    (let captures = filter is_capture ms;
         others = filter (\<lambda>m. \<not> is_capture m) ms
     in (picks (length captures - 1) R,
         picks (length others - 1) (snd (shuffleArray R captures))))"

subsection \<open>The root of the search\<close>

text \<open>The loop of \<^verbatim>\<open>findBestMove\<close>. It does not look at what \<^verbatim>\<open>game.move\<close> returns: after
  a rejected move it searches and undoes all the same.\<close>

fun rootLoop ::
  "'g engine \<Rightarrow> int \<Rightarrow> num \<Rightarrow> num \<Rightarrow> num \<Rightarrow> vmove option \<Rightarrow> vmove list \<Rightarrow> 'g quickchess
     \<Rightarrow> (vmove option, 'g quickchess) outcome option" where
  "rootLoop E depth alpha beta bestValue bestMove [] s = Some (Returns bestMove s)"
| "rootLoop E depth alpha beta bestValue bestMove (m # rest) s =
    (case move E (game s) m of
       Raised \<Rightarrow> Some (Throws s)
     | moveResult \<Rightarrow>
        (let s1 = (case moveResult of Applied g' \<Rightarrow> s\<lparr>game := g'\<rparr> | _ \<Rightarrow> s)
         in Option.bind (minimax E (depth - 1) (- beta) (- alpha) False s1)
             (\<lambda>r. case r of
                Throws s' \<Rightarrow> Some (Throws s')
              | Returns v s2 \<Rightarrow>
                 (let val = - v;
                      s3 = s2\<lparr>game := undo E (game s2)\<rparr>;
                      bestValue' = (if val > bestValue then val else bestValue);
                      bestMove' = (if val > bestValue then Some m else bestMove);
                      alpha' = max alpha val
                  in if alpha' \<ge> beta then Some (Returns bestMove' s3)
                     else rootLoop E depth alpha' beta bestValue' bestMove' rest s3))))"

text \<open>\<^verbatim>\<open>findBestMove(depth)\<close>; \<open>None\<close> as a returned move is \<^verbatim>\<open>null\<close>.\<close>

definition findBestMove ::
  "'g engine \<Rightarrow> int \<Rightarrow> (nat \<Rightarrow> real) \<Rightarrow> 'g quickchess
     \<Rightarrow> (vmove option, 'g quickchess) outcome option" where
  "findBestMove E depth R s =
    (let ms = moves E (game s)
     in if length ms = 0 then Some (Returns None s)
        else (let orderedMoves = orderMoves R ms
              in rootLoop E depth MInf PInf MInf None orderedMoves s))"

subsection \<open>The difficulty levels\<close>

text \<open>Reading an array at an index: \<^verbatim>\<open>undefined\<close>, here \<open>None\<close>, outside the array.\<close>

definition at_index :: "'a list \<Rightarrow> nat \<Rightarrow> 'a option" where
  "at_index xs i = (if i < length xs then Some (xs ! i) else None)"

text \<open>\<^verbatim>\<open>getEasyMove(moves)\<close>. The second operand of \<^verbatim>\<open>&&\<close> draws only if there is a
  capture, so the index is drawn second in that case and first otherwise.\<close>

definition getEasyMove :: "(nat \<Rightarrow> real) \<Rightarrow> vmove list \<Rightarrow> vmove option" where
  "getEasyMove R ms =
    (let captures = filter is_capture ms
     in if length captures > 0
        then (if R 0 < 3 / 10
              then at_index captures (nat \<lfloor>R 1 * real (length captures)\<rfloor>)
              else at_index ms (nat \<lfloor>R 1 * real (length ms)\<rfloor>))
        else at_index ms (nat \<lfloor>R 0 * real (length ms)\<rfloor>))"

definition getMediumMove ::
  "'g engine \<Rightarrow> (nat \<Rightarrow> real) \<Rightarrow> vmove list \<Rightarrow> 'g quickchess
     \<Rightarrow> (vmove option, 'g quickchess) outcome option" where
  "getMediumMove E R ms s = findBestMove E 2 R s"

definition getHardMove ::
  "'g engine \<Rightarrow> (nat \<Rightarrow> real) \<Rightarrow> vmove list \<Rightarrow> 'g quickchess
     \<Rightarrow> (vmove option, 'g quickchess) outcome option" where
  "getHardMove E R ms s = findBestMove E 3 R s"

definition getGrandmasterMove ::
  "'g engine \<Rightarrow> (nat \<Rightarrow> real) \<Rightarrow> vmove list \<Rightarrow> 'g quickchess
     \<Rightarrow> (vmove option, 'g quickchess) outcome option" where
  "getGrandmasterMove E R ms s = findBestMove E 4 R s"

text \<open>The \<^verbatim>\<open>switch (this.difficulty)\<close> of \<^verbatim>\<open>makeAIMove\<close>, which assigns \<^verbatim>\<open>selectedMove\<close>; with
  any other string the variable stays \<^verbatim>\<open>undefined\<close>.\<close>

definition selectedMove ::
  "'g engine \<Rightarrow> string \<Rightarrow> (nat \<Rightarrow> real) \<Rightarrow> vmove list \<Rightarrow> 'g quickchess
     \<Rightarrow> (vmove option, 'g quickchess) outcome option" where
  "selectedMove E difficulty R possibleMoves s =
    (if difficulty = ''easy'' then Some (Returns (getEasyMove R possibleMoves) s)
     else if difficulty = ''medium'' then getMediumMove E R possibleMoves s
     else if difficulty = ''hard'' then getHardMove E R possibleMoves s
     else if difficulty = ''grandmaster'' then getGrandmasterMove E R possibleMoves s
     else Some (Returns None s))"

subsection \<open>What the search expects of the game object\<close>

text \<open>
  The search relies on two habits of chess.js: a move listed by \<^verbatim>\<open>game.moves\<close> is applied
  when it is passed to \<^verbatim>\<open>game.move\<close>, and \<^verbatim>\<open>game.undo\<close> then gives the position back as
  it was. \<open>undo_contract E d g\<close> says so for the part of the game tree that a search of
  \<open>d\<close> plies from \<open>g\<close> can reach, and leaves a move free to throw;
  \<open>rules_contract E d g\<close> says in addition that no move throws there.
\<close>

fun undo_contract :: "'g engine \<Rightarrow> nat \<Rightarrow> 'g \<Rightarrow> bool" where
  "undo_contract E 0 g = True"
| "undo_contract E (Suc d) g =
    (\<forall>m \<in> set (moves E g).
       (case move E g m of
          Applied g' \<Rightarrow> undo E g' = g \<and> undo_contract E d g'
        | Rejected \<Rightarrow> False
        | Raised \<Rightarrow> True))"

fun rules_contract :: "'g engine \<Rightarrow> nat \<Rightarrow> 'g \<Rightarrow> bool" where
  "rules_contract E 0 g = True"
| "rules_contract E (Suc d) g =
    (\<forall>m \<in> set (moves E g).
       (case move E g m of
          Applied g' \<Rightarrow> undo E g' = g \<and> rules_contract E d g'
        | Rejected \<Rightarrow> False
        | Raised \<Rightarrow> False))"

text \<open>The position after a line of moves, each applied to the result of the one
  before.\<close>

fun apply_moves :: "'g engine \<Rightarrow> 'g \<Rightarrow> vmove list \<Rightarrow> 'g option" where
  "apply_moves E g [] = Some g"
| "apply_moves E g (m # ms) =
    (case move E g m of Applied g' \<Rightarrow> apply_moves E g' ms | _ \<Rightarrow> None)"

text \<open>
  How a call that started in position \<open>g\<close> has left the game: after a normal return the
  position is \<open>g\<close> again; after an exception it is the position in which a call of
  \<^verbatim>\<open>game.move\<close> threw, reached from \<open>g\<close> by a line of fewer than \<open>k\<close> moves.
\<close>

definition left_at :: "'g engine \<Rightarrow> 'g \<Rightarrow> nat \<Rightarrow> ('a, 'g quickchess) outcome \<Rightarrow> bool" where
  "left_at E g k r =
    (case r of
       Returns v s' \<Rightarrow> game s' = g
     | Throws s' \<Rightarrow>
        (\<exists>line. length line < k \<and> apply_moves E g line = Some (game s')
           \<and> (\<exists>m \<in> set (moves E (game s')). move E (game s') m = Raised)))"

subsection \<open>The search without pruning\<close>

text \<open>
  The exhaustive full-width search that the specification compares with: the value of a
  position is computed as \<^verbatim>\<open>minimax\<close> computes it, on every legal move and with no
  \<^verbatim>\<open>break\<close>, so without \<^verbatim>\<open>alpha\<close> and \<^verbatim>\<open>beta\<close>. It works on the position reached
  instead of applying and undoing.
\<close>

fun fullwidth :: "'g engine \<Rightarrow> nat \<Rightarrow> bool \<Rightarrow> 'g \<Rightarrow> num" where
  "fullwidth E 0 isMaximizing g = Fin (evaluatePosition E g)"
| "fullwidth E (Suc d) isMaximizing g =
    (if game_over E g \<or> length (moves E g) = 0 then Fin (evaluatePosition E g)
     else if isMaximizing
     then fold (\<lambda>m maxEval. case move E g m of
                   Applied g' \<Rightarrow> max maxEval (fullwidth E d False g')
                 | _ \<Rightarrow> maxEval) (moves E g) MInf
     else fold (\<lambda>m minEval. case move E g m of
                   Applied g' \<Rightarrow> min minEval (fullwidth E d True g')
                 | _ \<Rightarrow> minEval) (moves E g) PInf)"

text \<open>The value that the search without pruning gives the root move \<open>m\<close>: the negated
  value of the position after it, searched one ply less deep.\<close>

definition rootValue :: "'g engine \<Rightarrow> int \<Rightarrow> 'g \<Rightarrow> vmove \<Rightarrow> num" where
  "rootValue E depth g m =
    - fullwidth E (nat (depth - 1)) False (case move E g m of Applied g' \<Rightarrow> g' | _ \<Rightarrow> g)"

text \<open>The root loop without pruning: best value and best move over the ordered moves, the
  first of equally good moves being kept.\<close>

fun fullwidthRoot ::
  "'g engine \<Rightarrow> int \<Rightarrow> 'g \<Rightarrow> num \<Rightarrow> vmove option \<Rightarrow> vmove list \<Rightarrow> num \<times> vmove option" where
  "fullwidthRoot E depth g bestValue bestMove [] = (bestValue, bestMove)"
| "fullwidthRoot E depth g bestValue bestMove (m # rest) =
    (let val = rootValue E depth g m
     in if val > bestValue then fullwidthRoot E depth g val (Some m) rest
        else fullwidthRoot E depth g bestValue bestMove rest)"

text \<open>The loop of \<^verbatim>\<open>findBestMove\<close> with its \<^verbatim>\<open>if (alpha >= beta) break\<close> taken out and
  nothing else changed.\<close>

fun rootLoop_no_break ::
  "'g engine \<Rightarrow> int \<Rightarrow> num \<Rightarrow> num \<Rightarrow> num \<Rightarrow> vmove option \<Rightarrow> vmove list \<Rightarrow> 'g quickchess
     \<Rightarrow> (vmove option, 'g quickchess) outcome option" where
  "rootLoop_no_break E depth alpha beta bestValue bestMove [] s = Some (Returns bestMove s)"
| "rootLoop_no_break E depth alpha beta bestValue bestMove (m # rest) s =
    (case move E (game s) m of
       Raised \<Rightarrow> Some (Throws s)
     | moveResult \<Rightarrow>
        (let s1 = (case moveResult of Applied g' \<Rightarrow> s\<lparr>game := g'\<rparr> | _ \<Rightarrow> s)
         in Option.bind (minimax E (depth - 1) (- beta) (- alpha) False s1)
             (\<lambda>r. case r of
                Throws s' \<Rightarrow> Some (Throws s')
              | Returns v s2 \<Rightarrow>
                 (let val = - v;
                      s3 = s2\<lparr>game := undo E (game s2)\<rparr>;
                      bestValue' = (if val > bestValue then val else bestValue);
                      bestMove' = (if val > bestValue then Some m else bestMove);
                      alpha' = max alpha val
                  in rootLoop_no_break E depth alpha' beta bestValue' bestMove' rest s3))))"

text \<open>A value seen through the window from \<open>a\<close> to \<open>b\<close>.\<close>

definition clamp :: "num \<Rightarrow> num \<Rightarrow> num \<Rightarrow> num" where
  "clamp a b x = max a (min b x)"

subsection \<open>Small game trees\<close>

text \<open>Boards with a few pieces: each entry is row, column, colour and piece type.\<close>

definition board_with :: "(nat \<times> nat \<times> color \<times> piece_type) list \<Rightarrow> board" where
  "board_with ps =
    fold (\<lambda>(i, j, c, t) brd. brd[i := (brd ! i)[j := pce c t]]) ps empty_board"

definition kings :: "(nat \<times> nat \<times> color \<times> piece_type) list" where
  "kings = [(0, 4, BLACK, KING), (7, 4, WHITE, KING)]"

definition leaf :: "color \<Rightarrow> (nat \<times> nat \<times> color \<times> piece_type) list \<Rightarrow> tree" where
  "leaf c ps = Node (in_play c (board_with ps)) []"

text \<open>
  A tree of three plies, with only the moves listed that matter here. Black, to move, has
  a capture \<open>d5xe4\<close> and a quiet move \<open>d5d4\<close>. After the capture White's rook takes back
  and Black is a rook down. After the quiet move the rook steps to \<open>e3\<close>, where the pawn
  can take it; Black's second move there, \<open>e8d8\<close>, is the one that pruning skips.
\<close>

definition capture_move :: vmove where
  "capture_move = (mk_move ''d5'' ''e4'') \<lparr> captured := Some PAWN \<rparr>"

definition quiet_move :: vmove where
  "quiet_move = mk_move ''d5'' ''d4''"

definition small_tree :: tree where
  "small_tree =
    Node (in_play BLACK (board_with (kings @ [(3, 3, BLACK, PAWN), (4, 4, WHITE, PAWN),
                                                (6, 4, WHITE, ROOK)])))
     [(capture_move,
         Node (in_play WHITE (board_with (kings @ [(4, 4, BLACK, PAWN), (6, 4, WHITE, ROOK)])))
          [((mk_move ''e2'' ''e4'') \<lparr> captured := Some PAWN \<rparr>,
              Node (in_play BLACK (board_with (kings @ [(4, 4, WHITE, ROOK)])))
               [(mk_move ''e8'' ''d8'',
                   leaf WHITE [(0, 3, BLACK, KING), (7, 4, WHITE, KING), (4, 4, WHITE, ROOK)])])]),
      (quiet_move,
         Node (in_play WHITE (board_with (kings @ [(4, 3, BLACK, PAWN), (4, 4, WHITE, PAWN),
                                                     (6, 4, WHITE, ROOK)])))
          [(mk_move ''e2'' ''e3'',
              Node (in_play BLACK (board_with (kings @ [(4, 3, BLACK, PAWN), (4, 4, WHITE, PAWN),
                                                          (5, 4, WHITE, ROOK)])))
               [((mk_move ''d4'' ''e3'') \<lparr> captured := Some ROOK \<rparr>,
                   leaf WHITE (kings @ [(5, 4, BLACK, PAWN), (4, 4, WHITE, PAWN)])),
                (mk_move ''e8'' ''d8'',
                   leaf WHITE [(0, 3, BLACK, KING), (7, 4, WHITE, KING), (4, 3, BLACK, PAWN),
                               (4, 4, WHITE, PAWN), (5, 4, WHITE, ROOK)])])])]"

definition small_game :: "tree list quickchess" where
  "small_game = \<lparr> game = [small_tree], nodeCount = 0 \<rparr>"

text \<open>The same first move, but the game object throws when White's answer is applied.\<close>

definition faulty_reply :: tree where
  "faulty_reply =
    Node (in_play WHITE (board_with (kings @ [(4, 3, BLACK, PAWN)])))
     [(mk_move ''e1'' ''e2'', Fault)]"

definition faulty_tree :: tree where
  "faulty_tree =
    Node (in_play BLACK (board_with (kings @ [(3, 3, BLACK, PAWN)])))
     [(quiet_move, faulty_reply)]"

definition faulty_game :: "tree list quickchess" where
  "faulty_game = \<lparr> game = [faulty_tree], nodeCount = 0 \<rparr>"

text \<open>A game object that never ends: in every position one move can be played.\<close>

definition endless :: "nat engine" where
  "endless = \<lparr> turn = (\<lambda>g. if even g then BLACK else WHITE), game_over = (\<lambda>g. False),
      in_checkmate = (\<lambda>g. False), in_stalemate = (\<lambda>g. False),
      in_threefold_repetition = (\<lambda>g. False), insufficient_material = (\<lambda>g. False),
      in_draw = (\<lambda>g. False), board = (\<lambda>g. empty_board), moves = (\<lambda>g. [quiet_move]),
      move = (\<lambda>g m. Applied (Suc g)), undo = (\<lambda>g. g - 1) \<rparr>"

fun frame_depth :: "'g frame \<Rightarrow> int" where
  "frame_depth (Minimax d a b mx s) = d"
| "frame_depth (MaxLoop d a b v ms s) = d"
| "frame_depth (MinLoop d a b v ms s) = d"

fun frame_moves :: "'g frame \<Rightarrow> vmove list" where
  "frame_moves (Minimax d a b mx s) = [quiet_move]"
| "frame_moves (MaxLoop d a b v ms s) = ms"
| "frame_moves (MinLoop d a b v ms s) = ms"

text \<open>Three moves for the shuffle: one capture and two others.\<close>

definition king_move :: vmove where
  "king_move = mk_move ''e8'' ''d8''"

definition sample_moves :: "vmove list" where
  "sample_moves = [quiet_move, capture_move, king_move]"

text \<open>Draws that are all 0, and draws that are all one half.\<close>

definition zero_draws :: "nat \<Rightarrow> real" where
  "zero_draws k = 0"

definition half_draws :: "nat \<Rightarrow> real" where
  "half_draws k = 1 / 2"

section \<open>Properties of the evaluator\<close>

lemma tree_engine_sel [simp]:
  "turn tree_engine = query p_turn WHITE"
  "in_checkmate tree_engine = query p_checkmate False"
  "in_stalemate tree_engine = query p_stalemate False"
  "in_threefold_repetition tree_engine = query p_threefold False"
  "insufficient_material tree_engine = query p_insufficient False"
  "in_draw tree_engine = query p_draw False"
  "board tree_engine = query p_board empty_board"
  "moves tree_engine = tree_moves"
  "move tree_engine = tree_move"
  "undo tree_engine = tl"
  "game_over tree_engine = query (\<lambda>p. p_checkmate p \<or> p_stalemate p \<or> p_threefold p
                              \<or> p_insufficient p \<or> p_draw p) False"
  by (simp_all add: tree_engine_def)

lemma query_Node [simp]: "query f d (Node p cs # st) = f p"
  by (simp add: query_def)

lemma upt8: "[0..<8] = [0, 1, 2, 3, 4, 5, 6, 7]"
  by (simp add: upt_rec)

lemma evaluatePosition_checkmate:
  "in_checkmate E g \<Longrightarrow>
     evaluatePosition E g = (if turn E g = BLACK then 10000 else - 10000)"
  by (simp add: evaluatePosition_def)

text \<open>With bare kings and a single queen on \<open>d5\<close> the evaluation is 905 when the queen is
  Black's and -905 when it is White's: a positive score is in Black's favour.\<close>

lemma material_counts_for_black:
  "evaluatePosition tree_engine [leaf WHITE (kings @ [(3, 3, BLACK, QUEEN)])] = 905
   \<and> evaluatePosition tree_engine [leaf WHITE (kings @ [(3, 3, WHITE, QUEEN)])] = - 905"
  by code_simp

text \<open>
  Claim C1 reads: in a checkmate position \<^verbatim>\<open>evaluatePosition\<close> returns +10000 when the
  human (White) is to move and -10000 when the engine (Black) is to move. The code has the
  two signs the other way round. In the final position of fool's mate White is to move
  and is checkmated, and the evaluation is -10000, although every other term of the
  function counts in Black's favour.
\<close>

theorem C1_checkmate_of_white_scores_minus_10000:
  "in_checkmate tree_engine [fools_mate] \<and> turn tree_engine [fools_mate] = WHITE
     \<and> evaluatePosition tree_engine [fools_mate] = - 10000"
  by (simp add: fools_mate_def in_play_def evaluatePosition_def)

subsection \<open>The starting position\<close>

lemma start_board_rows:
  "start_board ! 0 = back_rank BLACK"
  "start_board ! 1 = replicate 8 (pce BLACK PAWN)"
  "start_board ! Suc 0 = replicate 8 (pce BLACK PAWN)"
  "start_board ! 2 = replicate 8 None"
  "start_board ! 3 = replicate 8 None"
  "start_board ! 4 = replicate 8 None"
  "start_board ! 5 = replicate 8 None"
  "start_board ! 6 = replicate 8 (pce WHITE PAWN)"
  "start_board ! 7 = back_rank WHITE"
  by (simp_all add: start_board_def)

lemma start_material:
  "(\<Sum>i \<leftarrow> [0..<8]. \<Sum>j \<leftarrow> [0..<8].
      (case start_board ! i ! j of
         None \<Rightarrow> 0
       | Some p \<Rightarrow> (if color p = BLACK then getPieceValue p i j
                      else - getPieceValue p i j))) = 0"
  by (simp add: upt8 start_board_rows back_rank_def pce_def getPieceValue_def pieceValues_def
      pawnTable_def knightTable_def bishopTable_def rookTable_def queenTable_def
      kingMiddleGameTable_def)

lemma start_king_safety:
  "board E g = start_board \<Longrightarrow> evaluateKingSafety E g c = 30"
  by (cases c)
    (simp_all add: evaluateKingSafety_def upt8 start_board_rows back_rank_def pce_def
      is_piece_def)

lemma start_pawn_structure:
  "board E g = start_board \<Longrightarrow> evaluatePawnStructure E g c = 0"
  by (cases c)
    (simp_all add: evaluatePawnStructure_def upt8 start_board_rows back_rank_def pce_def
      is_piece_def)

text \<open>
  Claim C5 reads: \<^verbatim>\<open>evaluatePosition\<close> on the standard starting position returns exactly 0.
  It does not: White is to move, and the mobility term subtracts a tenth of a point for
  each of White's twenty legal moves.
\<close>

theorem C5_start_not_zero:
  "evaluatePosition tree_engine [start_tree] \<noteq> 0"
  by code_simp

text \<open>
  Claim C5 as amended: on the standard starting position, White to move with twenty legal
  moves, \<^verbatim>\<open>evaluatePosition\<close> returns -2; the material, piece-square, king-safety and
  pawn-structure terms cancel between the two sides, and the mobility term is
  \<open>- (20 * 0.1)\<close>.
\<close>

theorem C5_start_evaluation:
  assumes "board E g = start_board" and "turn E g = WHITE" and "length (moves E g) = 20"
    and "\<not> in_checkmate E g" and "\<not> in_stalemate E g"
    and "\<not> in_threefold_repetition E g" and "\<not> insufficient_material E g"
    and "\<not> in_draw E g"
  shows "evaluatePosition E g = - 2"
  using assms
  by (simp add: evaluatePosition_def start_material start_king_safety start_pawn_structure)

theorem C5_start_evaluation_witness:
  "board tree_engine [start_tree] = start_board \<and> turn tree_engine [start_tree] = WHITE
     \<and> length (moves tree_engine [start_tree]) = 20
     \<and> \<not> in_checkmate tree_engine [start_tree] \<and> \<not> in_stalemate tree_engine [start_tree]
     \<and> \<not> in_threefold_repetition tree_engine [start_tree]
     \<and> \<not> insufficient_material tree_engine [start_tree] \<and> \<not> in_draw tree_engine [start_tree]
     \<and> evaluatePosition tree_engine [start_tree] = - 2"
  using C5_start_evaluation [of tree_engine "[start_tree]"]
  by (simp add: start_tree_def in_play_def tree_moves_def start_moves_def)

section \<open>The search returns\<close>

subsection \<open>The three frames, one equation each\<close>

lemma minimax_unfold:
  "minimax E depth alpha beta isMaximizing s0 =
    (let s = s0\<lparr>nodeCount := nodeCount s0 + 1\<rparr> in
     if depth = 0 \<or> game_over E (game s)
     then Some (Returns (Fin (evaluatePosition E (game s))) s)
     else (let ms = moves E (game s) in
       if length ms = 0 then Some (Returns (Fin (evaluatePosition E (game s))) s)
       else if isMaximizing then maxLoop E depth alpha beta MInf ms s
       else minLoop E depth alpha beta PInf ms s))"
  unfolding minimax_def maxLoop_def minLoop_def by (subst search.simps) simp

lemma maxLoop_Nil: "maxLoop E depth alpha beta maxEval [] s = Some (Returns maxEval s)"
  unfolding maxLoop_def by (subst search.simps) simp

lemma maxLoop_Cons:
  "maxLoop E depth alpha beta maxEval (m # rest) s =
    (case move E (game s) m of
       Raised \<Rightarrow> Some (Throws s)
     | Rejected \<Rightarrow> maxLoop E depth alpha beta maxEval rest s
     | Applied g' \<Rightarrow>
         Option.bind (minimax E (depth - 1) alpha beta False (s\<lparr>game := g'\<rparr>))
          (\<lambda>r. case r of
             Throws s' \<Rightarrow> Some (Throws s')
           | Returns eval_score s1 \<Rightarrow>
              (let s2 = s1\<lparr>game := undo E (game s1)\<rparr>;
                   maxEval' = max maxEval eval_score;
                   alpha' = max alpha eval_score
               in if beta \<le> alpha' then Some (Returns maxEval' s2)
                  else maxLoop E depth alpha' beta maxEval' rest s2)))"
  unfolding minimax_def maxLoop_def by (subst search.simps) simp

lemma minLoop_Nil: "minLoop E depth alpha beta minEval [] s = Some (Returns minEval s)"
  unfolding minLoop_def by (subst search.simps) simp

lemma minLoop_Cons:
  "minLoop E depth alpha beta minEval (m # rest) s =
    (case move E (game s) m of
       Raised \<Rightarrow> Some (Throws s)
     | Rejected \<Rightarrow> minLoop E depth alpha beta minEval rest s
     | Applied g' \<Rightarrow>
         Option.bind (minimax E (depth - 1) alpha beta True (s\<lparr>game := g'\<rparr>))
          (\<lambda>r. case r of
             Throws s' \<Rightarrow> Some (Throws s')
           | Returns eval_score s1 \<Rightarrow>
              (let s2 = s1\<lparr>game := undo E (game s1)\<rparr>;
                   minEval' = min minEval eval_score;
                   beta' = min beta eval_score
               in if beta' \<le> alpha then Some (Returns minEval' s2)
                  else minLoop E depth alpha beta' minEval' rest s2)))"
  unfolding minimax_def minLoop_def by (subst search.simps) simp

lemma maxLoop_returns:
  assumes IH: "\<And>a b mx s. \<exists>r. minimax E (int d) a b mx (s::'g quickchess) = Some r"
  shows "\<exists>r. maxLoop E (int (Suc d)) alpha beta maxEval ms (s::'g quickchess) = Some r"
proof (induction ms arbitrary: alpha maxEval s)
  case Nil
  show ?case by (simp add: maxLoop_Nil)
next
  case (Cons m rest)
  show ?case
  proof (cases "move E (game s) m")
    case (Applied g')
    obtain r where r: "minimax E (int d) alpha beta False (s\<lparr>game := g'\<rparr>) = Some r"
      using IH by blast
    show ?thesis
    proof (cases r)
      case (Returns v s1)
      with r Applied Cons.IH show ?thesis
        by (simp add: maxLoop_Cons Let_def)
    next
      case (Throws s')
      with r Applied show ?thesis by (simp add: maxLoop_Cons)
    qed
  next
    case Rejected
    with Cons.IH show ?thesis by (simp add: maxLoop_Cons)
  next
    case Raised
    then show ?thesis by (simp add: maxLoop_Cons)
  qed
qed

lemma minLoop_returns:
  assumes IH: "\<And>a b mx s. \<exists>r. minimax E (int d) a b mx (s::'g quickchess) = Some r"
  shows "\<exists>r. minLoop E (int (Suc d)) alpha beta minEval ms (s::'g quickchess) = Some r"
proof (induction ms arbitrary: beta minEval s)
  case Nil
  show ?case by (simp add: minLoop_Nil)
next
  case (Cons m rest)
  show ?case
  proof (cases "move E (game s) m")
    case (Applied g')
    obtain r where r: "minimax E (int d) alpha beta True (s\<lparr>game := g'\<rparr>) = Some r"
      using IH by blast
    show ?thesis
    proof (cases r)
      case (Returns v s1)
      with r Applied Cons.IH show ?thesis
        by (simp add: minLoop_Cons Let_def)
    next
      case (Throws s')
      with r Applied show ?thesis by (simp add: minLoop_Cons)
    qed
  next
    case Rejected
    with Cons.IH show ?thesis by (simp add: minLoop_Cons)
  next
    case Raised
    then show ?thesis by (simp add: minLoop_Cons)
  qed
qed

lemma minimax_returns_nat:
  "\<exists>r. minimax E (int d) alpha beta isMaximizing (s::'g quickchess) = Some r"
proof (induction d arbitrary: alpha beta isMaximizing s)
  case 0
  show ?case by (simp add: minimax_unfold)
next
  case (Suc d)
  show ?case
    using maxLoop_returns [of E d, OF Suc.IH] minLoop_returns [of E d, OF Suc.IH]
    by (simp add: minimax_unfold Let_def del: of_nat_Suc)
qed


lemma minimax_returns:
  assumes "0 \<le> depth"
  shows "\<exists>r. minimax E depth alpha beta isMaximizing (s::'g quickchess) = Some r"
  using minimax_returns_nat [of E "nat depth" alpha beta isMaximizing s] assms by simp

lemma rootLoop_returns:
  assumes "1 \<le> depth"
  shows "\<exists>r. rootLoop E depth alpha beta bestValue bestMove ms (s::'g quickchess) = Some r"
proof (induction ms arbitrary: alpha bestValue bestMove s)
  case Nil
  show ?case by simp
next
  case (Cons m rest)
  define s1 where "s1 = (case move E (game s) m of Applied g' \<Rightarrow> s\<lparr>game := g'\<rparr> | _ \<Rightarrow> s)"
  obtain r where r: "minimax E (depth - 1) (- beta) (- alpha) False s1 = Some r"
    using minimax_returns [of "depth - 1"] assms by fastforce
  show ?case
  proof (cases r)
    case (Returns v s2)
    with r Cons.IH show ?thesis
      by (cases "move E (game s) m") (simp_all add: s1_def Let_def)
  next
    case (Throws s')
    with r show ?thesis
      by (cases "move E (game s) m") (simp_all add: s1_def)
  qed
qed

text \<open>Below depth 0 the recursion need not end: on the game object that never ends,
  \<^verbatim>\<open>minimax\<close> with a negative depth does not return.\<close>

lemma search_endless:
  assumes "search E fr = Some y"
  shows "E = endless \<longrightarrow> 0 \<le> frame_depth fr \<or> frame_moves fr = []"
proof (rule search.raw_induct
    [where P = "\<lambda>E fr y. E = endless \<longrightarrow> 0 \<le> frame_depth fr \<or> frame_moves fr = []",
     OF _ assms], goal_cases)
  case (1 search E fr y)
  show ?case
  proof (intro impI)
    assume E: "E = endless"
    note IH = 1(1) [THEN mp, OF _ E]
    show "0 \<le> frame_depth fr \<or> frame_moves fr = []"
    proof (cases fr)
      case (Minimax d a b mx s)
      show ?thesis
      proof (rule ccontr)
        assume "\<not> ?thesis"
        with Minimax have neg: "d < 0" by simp
        with 1(2) E Minimax
        have "search E (MaxLoop d a b MInf [quiet_move] (s\<lparr>nodeCount := nodeCount s + 1\<rparr>)) = Some y
          \<or> search E (MinLoop d a b PInf [quiet_move] (s\<lparr>nodeCount := nodeCount s + 1\<rparr>)) = Some y"
          by (auto simp: endless_def Let_def split: if_splits)
        with IH neg show False by fastforce
      qed
    next
      case (MaxLoop d a b v ms s)
      show ?thesis
      proof (rule ccontr)
        assume "\<not> ?thesis"
        with MaxLoop obtain m rest where neg: "d < 0" and ms: "ms = m # rest"
          by (cases ms) auto
        with 1(2) E MaxLoop obtain r where
          "search E (Minimax (d - 1) a b False (s\<lparr>game := Suc (game s)\<rparr>)) = Some r"
          by (auto simp: endless_def bind_eq_Some_conv)
        with IH neg show False by fastforce
      qed
    next
      case (MinLoop d a b v ms s)
      show ?thesis
      proof (rule ccontr)
        assume "\<not> ?thesis"
        with MinLoop obtain m rest where neg: "d < 0" and ms: "ms = m # rest"
          by (cases ms) auto
        with 1(2) E MinLoop obtain r where
          "search E (Minimax (d - 1) a b True (s\<lparr>game := Suc (game s)\<rparr>)) = Some r"
          by (auto simp: endless_def bind_eq_Some_conv)
        with IH neg show False by fastforce
      qed
    qed
  qed
qed

lemma minimax_negative_depth:
  "depth < 0 \<Longrightarrow> minimax endless depth alpha beta isMaximizing s = None"
  using search_endless [of endless "Minimax depth alpha beta isMaximizing s"]
  by (cases "minimax endless depth alpha beta isMaximizing s") (auto simp: minimax_def)

text \<open>
  Claim C9: \<^verbatim>\<open>minimax(depth, alpha, beta, isMaximizing)\<close> terminates for every depth of at
  least 0, and \<^verbatim>\<open>findBestMove(depth)\<close> for every depth of at least 1, whatever the game
  object answers: every recursive call has \<open>depth - 1\<close>, and the loops run through finite
  lists of moves. In the model a call that does not return has the value \<open>None\<close>.
\<close>

theorem C9_search_returns:
  "(0 \<le> depth \<longrightarrow> (\<exists>r. minimax E depth alpha beta isMaximizing (s::'g quickchess) = Some r))
   \<and> (1 \<le> depth \<longrightarrow> (\<exists>r. findBestMove E depth R s = Some r))"
  using minimax_returns [of depth E alpha beta isMaximizing s]
    rootLoop_returns [of depth E MInf PInf MInf None "orderMoves R (moves E (game s))" s]
  by (simp add: findBestMove_def Let_def)

theorem C9_search_returns_witness:
  "(0::int) \<le> 2 \<and> (\<exists>r. minimax tree_engine 2 MInf PInf False small_game = Some r)
   \<and> (1::int) \<le> 2 \<and> (\<exists>r. findBestMove tree_engine 2 zero_draws small_game = Some r)"
  using C9_search_returns [of 2 tree_engine MInf PInf False small_game zero_draws]
  by simp

section \<open>Shuffling and move ordering\<close>

lemma draw_index:
  assumes "0 \<le> r" "r < 1"
  shows "nat \<lfloor>r * (real n + 1)\<rfloor> \<le> n"
proof -
  have "r * (real n + 1) < real n + 1"
    using assms by (simp add: mult_less_cancel_right1 add_pos_nonneg)
  then have "\<lfloor>r * (real n + 1)\<rfloor> < int n + 1"
    unfolding floor_less_iff by simp
  then have "\<lfloor>r * (real n + 1)\<rfloor> \<le> int n"
    by linarith
  then show ?thesis
    by (simp only: nat_le_iff)
qed

lemma draws_tail: "draws R \<Longrightarrow> draws (R \<circ> Suc)"
  by (simp add: draws_def)

lemma shuffleFrom_mset:
  "draws R \<Longrightarrow> i < length a \<Longrightarrow> mset (fst (shuffleFrom i R a)) = mset a"
proof (induction i arbitrary: R a)
  case 0
  show ?case by simp
next
  case (Suc i)
  let ?j = "nat \<lfloor>R 0 * (real (Suc i) + 1)\<rfloor>"
  have j: "?j \<le> Suc i"
    using Suc.prems(1) draw_index [of "R 0" "Suc i"] by (simp add: draws_def)
  have "mset (a[Suc i := a ! ?j, ?j := a ! Suc i]) = mset a"
    using j Suc.prems(2) by (simp add: mset_swap)
  moreover have "mset (fst (shuffleFrom i (R \<circ> Suc) (a[Suc i := a ! ?j, ?j := a ! Suc i])))
      = mset (a[Suc i := a ! ?j, ?j := a ! Suc i])"
    using Suc.prems by (intro Suc.IH) (simp_all add: draws_def)
  ultimately show ?case by (simp add: Let_def del: of_nat_Suc)
qed

lemma shuffleFrom_draws:
  "draws R \<Longrightarrow> draws (snd (shuffleFrom i R a))"
  by (induction i arbitrary: R a) (simp_all add: Let_def draws_tail)

lemma shuffleArray_mset:
  "draws R \<Longrightarrow> mset (fst (shuffleArray R a)) = mset a"
  by (cases "a = []") (simp_all add: shuffleArray_def shuffleFrom_mset)

lemma shuffleArray_draws:
  "draws R \<Longrightarrow> draws (snd (shuffleArray R a))"
  by (simp add: shuffleArray_def shuffleFrom_draws)

lemma orderMoves_split:
  "orderMoves R ms =
     fst (shuffleArray R (filter is_capture ms))
     @ fst (shuffleArray (snd (shuffleArray R (filter is_capture ms)))
              (filter (\<lambda>m. \<not> is_capture m) ms))"
  by (simp add: orderMoves_def Let_def split: prod.splits)

lemma orderMoves_mset:
  assumes "draws R"
  shows "mset (orderMoves R ms) = mset ms"
proof -
  have "mset (orderMoves R ms)
      = mset (filter is_capture ms) + mset (filter (\<lambda>m. \<not> is_capture m) ms)"
    using assms by (simp add: orderMoves_split shuffleArray_mset shuffleArray_draws)
  then show ?thesis by simp
qed

lemma orderMoves_set: "draws R \<Longrightarrow> set (orderMoves R ms) = set ms"
  using orderMoves_mset [of R ms] by (metis set_mset_mset)

section \<open>What the search leaves behind\<close>

lemma int_Suc_pred [simp]: "int (Suc d) - 1 = int d"
  by simp

lemma left_at_Returns [simp]: "left_at E g k (Returns v s') = (game s' = g)"
  by (simp add: left_at_def)

lemma left_at_raised:
  "m \<in> set (moves E (game s)) \<Longrightarrow> move E (game s) m = Raised \<Longrightarrow> left_at E (game s) (Suc k) (Throws s)"
  unfolding left_at_def by (auto intro!: exI [of _ "[]"])

lemma left_at_deeper:
  assumes "move E g m = Applied g'" and "left_at E g' k (Throws s')"
  shows "left_at E g (Suc k) (Throws s')"
proof -
  from assms(2) obtain line where line: "length line < k" "apply_moves E g' line = Some (game s')"
    "\<exists>m \<in> set (moves E (game s')). move E (game s') m = Raised"
    unfolding left_at_def by auto
  from line assms(1) have "length (m # line) < Suc k" "apply_moves E g (m # line) = Some (game s')"
    by simp_all
  with line(3) show ?thesis
    unfolding left_at_def by (auto intro: exI [of _ "m # line"])
qed

lemma maxLoop_left_at:
  assumes IH: "\<And>a b mx (s::'g quickchess) r. undo_contract E d (game s) \<Longrightarrow>
                 minimax E (int d) a b mx s = Some r \<Longrightarrow> left_at E (game s) d r"
    and C: "undo_contract E (Suc d) g"
  shows "set ms \<subseteq> set (moves E g) \<Longrightarrow> game s = g \<Longrightarrow>
         maxLoop E (int (Suc d)) alpha beta maxEval ms s = Some r \<Longrightarrow> left_at E g (Suc d) r"
proof (induction ms arbitrary: alpha maxEval s)
  case Nil
  then show ?case by (auto simp: maxLoop_Nil)
next
  case (Cons m rest)
  from Cons.prems have m: "m \<in> set (moves E g)" and rest: "set rest \<subseteq> set (moves E g)"
    by simp_all
  show ?case
  proof (cases "move E g m")
    case Raised
    with Cons.prems m show ?thesis
      using left_at_raised [of m E s d] by (auto simp: maxLoop_Cons)
  next
    case Rejected
    with C m show ?thesis by auto
  next
    case (Applied g')
    with C m have g': "undo E g' = g" "undo_contract E d g'" by auto
    from Cons.prems(3) Applied Cons.prems(2)
    obtain r1 where r1: "minimax E (int d) alpha beta False (s\<lparr>game := g'\<rparr>) = Some r1"
      by (auto simp: maxLoop_Cons bind_eq_Some_conv)
    from IH [OF _ r1] g' have l1: "left_at E g' d r1" by simp
    show ?thesis
    proof (cases r1)
      case (Throws s1)
      with r1 Applied Cons.prems have "r = Throws s1"
        by (simp add: maxLoop_Cons)
      with l1 Throws Applied show ?thesis
        using left_at_deeper by fastforce
    next
      case (Returns ev s1)
      with l1 have "game s1 = g'" by simp
      with g' have s2: "game (s1\<lparr>game := undo E (game s1)\<rparr>) = g" by simp
      show ?thesis
      proof (cases "beta \<le> max alpha ev")
        case True
        with r1 Returns Applied Cons.prems have "r = Returns (max maxEval ev) (s1\<lparr>game := undo E (game s1)\<rparr>)"
          by (simp add: maxLoop_Cons Let_def)
        with s2 show ?thesis by simp
      next
        case False
        with r1 Returns Applied Cons.prems
        have "maxLoop E (int (Suc d)) (max alpha ev) beta (max maxEval ev) rest
                (s1\<lparr>game := undo E (game s1)\<rparr>) = Some r"
          by (simp add: maxLoop_Cons Let_def)
        from Cons.IH [OF rest s2 this] show ?thesis .
      qed
    qed
  qed
qed

lemma minLoop_left_at:
  assumes IH: "\<And>a b mx (s::'g quickchess) r. undo_contract E d (game s) \<Longrightarrow>
                 minimax E (int d) a b mx s = Some r \<Longrightarrow> left_at E (game s) d r"
    and C: "undo_contract E (Suc d) g"
  shows "set ms \<subseteq> set (moves E g) \<Longrightarrow> game s = g \<Longrightarrow>
         minLoop E (int (Suc d)) alpha beta minEval ms s = Some r \<Longrightarrow> left_at E g (Suc d) r"
proof (induction ms arbitrary: beta minEval s)
  case Nil
  then show ?case by (auto simp: minLoop_Nil)
next
  case (Cons m rest)
  from Cons.prems have m: "m \<in> set (moves E g)" and rest: "set rest \<subseteq> set (moves E g)"
    by simp_all
  show ?case
  proof (cases "move E g m")
    case Raised
    with Cons.prems m show ?thesis
      using left_at_raised [of m E s d] by (auto simp: minLoop_Cons)
  next
    case Rejected
    with C m show ?thesis by auto
  next
    case (Applied g')
    with C m have g': "undo E g' = g" "undo_contract E d g'" by auto
    from Cons.prems(3) Applied Cons.prems(2)
    obtain r1 where r1: "minimax E (int d) alpha beta True (s\<lparr>game := g'\<rparr>) = Some r1"
      by (auto simp: minLoop_Cons bind_eq_Some_conv)
    from IH [OF _ r1] g' have l1: "left_at E g' d r1" by simp
    show ?thesis
    proof (cases r1)
      case (Throws s1)
      with r1 Applied Cons.prems have "r = Throws s1"
        by (simp add: minLoop_Cons)
      with l1 Throws Applied show ?thesis
        using left_at_deeper by fastforce
    next
      case (Returns ev s1)
      with l1 have "game s1 = g'" by simp
      with g' have s2: "game (s1\<lparr>game := undo E (game s1)\<rparr>) = g" by simp
      show ?thesis
      proof (cases "min beta ev \<le> alpha")
        case True
        with r1 Returns Applied Cons.prems have "r = Returns (min minEval ev) (s1\<lparr>game := undo E (game s1)\<rparr>)"
          by (simp add: minLoop_Cons Let_def)
        with s2 show ?thesis by simp
      next
        case False
        with r1 Returns Applied Cons.prems
        have "minLoop E (int (Suc d)) alpha (min beta ev) (min minEval ev) rest
                (s1\<lparr>game := undo E (game s1)\<rparr>) = Some r"
          by (simp add: minLoop_Cons Let_def)
        from Cons.IH [OF rest s2 this] show ?thesis .
      qed
    qed
  qed
qed


lemma minimax_left_at:
  "undo_contract E d (game s) \<Longrightarrow> minimax E (int d) a b mx (s::'g quickchess) = Some r \<Longrightarrow>
     left_at E (game s) d r"
proof (induction d arbitrary: a b mx s r)
  case 0
  then show ?case by (auto simp: minimax_unfold)
next
  case (Suc d)
  let ?s = "s\<lparr>nodeCount := nodeCount s + 1\<rparr>"
  show ?case
  proof (cases "game_over E (game s) \<or> length (moves E (game s)) = 0")
    case True
    with Suc.prems show ?thesis
      by (auto simp: minimax_unfold Let_def simp del: of_nat_Suc split: if_splits)
  next
    case False
    show ?thesis
    proof (cases mx)
      case True
      with False Suc.prems(2)
      have "maxLoop E (int (Suc d)) a b MInf (moves E (game s)) ?s = Some r"
        by (simp add: minimax_unfold Let_def del: of_nat_Suc)
      from maxLoop_left_at [of E d "game s", OF Suc.IH Suc.prems(1) _ _ this]
      show ?thesis by simp
    next
      case mn: False
      with False Suc.prems(2)
      have "minLoop E (int (Suc d)) a b PInf (moves E (game s)) ?s = Some r"
        by (simp add: minimax_unfold Let_def del: of_nat_Suc)
      from minLoop_left_at [of E d "game s", OF Suc.IH Suc.prems(1) _ _ this]
      show ?thesis by simp
    qed
  qed
qed

lemma rootLoop_left_at:
  assumes C: "undo_contract E (Suc d) g"
  shows "set ms \<subseteq> set (moves E g) \<Longrightarrow> game s = g \<Longrightarrow>
         rootLoop E (int (Suc d)) alpha beta bestValue bestMove ms (s::'g quickchess) = Some r \<Longrightarrow>
         left_at E g (Suc d) r"
proof (induction ms arbitrary: alpha bestValue bestMove s)
  case Nil
  then show ?case by auto
next
  case (Cons m rest)
  from Cons.prems have m: "m \<in> set (moves E g)" and rest: "set rest \<subseteq> set (moves E g)"
    by simp_all
  show ?case
  proof (cases "move E g m")
    case Raised
    with Cons.prems m show ?thesis
      using left_at_raised [of m E s d] by auto
  next
    case Rejected
    with C m show ?thesis by auto
  next
    case (Applied g')
    with C m have g': "undo E g' = g" "undo_contract E d g'" by auto
    from Cons.prems(3) Applied Cons.prems(2)
    obtain r1 where r1: "minimax E (int d) (- beta) (- alpha) False (s\<lparr>game := g'\<rparr>) = Some r1"
      by (auto simp: bind_eq_Some_conv)
    from minimax_left_at [OF _ r1] g' have l1: "left_at E g' d r1" by simp
    show ?thesis
    proof (cases r1)
      case (Throws s1)
      with r1 Applied Cons.prems have "r = Throws s1"
        by simp
      with l1 Throws Applied show ?thesis
        using left_at_deeper by fastforce
    next
      case (Returns v s1)
      with l1 have "game s1 = g'" by simp
      with g' have s2: "game (s1\<lparr>game := undo E (game s1)\<rparr>) = g" by simp
      show ?thesis
      proof (cases "beta \<le> max alpha (- v)")
        case True
        with r1 Returns Applied Cons.prems
        have "\<exists>bm. r = Returns bm (s1\<lparr>game := undo E (game s1)\<rparr>)"
          by (auto simp: Let_def)
        with s2 show ?thesis by auto
      next
        case False
        with r1 Returns Applied Cons.prems
        have "\<exists>bv bm. rootLoop E (int (Suc d)) (max alpha (- v)) beta bv bm rest
                (s1\<lparr>game := undo E (game s1)\<rparr>) = Some r"
          by (auto simp: Let_def simp del: of_nat_Suc)
        then show ?thesis using Cons.IH [OF rest s2] by blast
      qed
    qed
  qed
qed

lemma findBestMove_left_at:
  assumes "1 \<le> depth" and "draws R" and "undo_contract E (nat depth) (game s)"
    and "findBestMove E depth R (s::'g quickchess) = Some r"
  shows "left_at E (game s) (nat depth) r"
proof -
  define d where "d = nat (depth - 1)"
  from assms(1) have d: "depth = int (Suc d)" and nd: "nat depth = Suc d"
    by (simp_all add: d_def)
  from assms(3) have C: "undo_contract E (Suc d) (game s)"
    by (simp only: nd)
  show ?thesis
  proof (cases "length (moves E (game s)) = 0")
    case True
    with assms(4) show ?thesis by (auto simp: findBestMove_def)
  next
    case False
    with assms(4) have "rootLoop E (int (Suc d)) MInf PInf MInf None
                          (orderMoves R (moves E (game s))) s = Some r"
      by (simp add: findBestMove_def d Let_def del: of_nat_Suc)
    from rootLoop_left_at [of E d "game s", OF C _ _ this] assms(2)
    show ?thesis by (simp only: nd orderMoves_set)
  qed
qed


lemma draws_zero: "draws zero_draws"
  by (simp add: draws_def zero_draws_def)

lemma draws_half: "draws half_draws"
  by (simp add: draws_def half_draws_def)

text \<open>
  Claim C8: after a call of \<^verbatim>\<open>findBestMove\<close> that returns normally the position of the game
  object is the one before the call, for every game object that applies the moves it
  lists and whose \<^verbatim>\<open>undo\<close> takes a move back, also when a loop was left by \<^verbatim>\<open>break\<close>. In
  the example that follows, the search of three plies skips a move by pruning: it visits
  6 nodes where the search without pruning visits 7.
\<close>

theorem C8_position_unchanged_after_return:
  assumes "1 \<le> depth" and "draws R" and "undo_contract E (nat depth) (game s)"
    and "findBestMove E depth R (s::'g quickchess) = Some (Returns best s')"
  shows "game s' = game s"
  using findBestMove_left_at [OF assms] by simp

theorem C8_position_unchanged_after_return_witness:
  "(1::int) \<le> 3 \<and> draws zero_draws \<and> undo_contract tree_engine (nat 3) (game small_game)
   \<and> findBestMove tree_engine 3 zero_draws small_game
       = Some (Returns (Some capture_move) (small_game\<lparr>nodeCount := 6\<rparr>))
   \<and> game (small_game\<lparr>nodeCount := 6\<rparr>) = game small_game"
proof -
  have c: "undo_contract tree_engine (nat 3) (game small_game)"
    by code_simp
  have r: "findBestMove tree_engine 3 zero_draws small_game
             = Some (Returns (Some capture_move) (small_game\<lparr>nodeCount := 6\<rparr>))"
    unfolding findBestMove_def minimax_def by code_simp
  from C8_position_unchanged_after_return [OF _ draws_zero c r] draws_zero c r
  show ?thesis by simp
qed

text \<open>
  Claim C2 reads: if an exception from the rules engine comes out of \<^verbatim>\<open>findBestMove\<close>, the
  position has been restored to its state before the call. The code has no
  \<^verbatim>\<open>try\<close>/\<^verbatim>\<open>finally\<close> around its calls of \<^verbatim>\<open>game.move\<close> and \<^verbatim>\<open>game.undo\<close>: when the game
  object throws on White's answer, Black's root move stays applied.
\<close>

theorem C2_exception_leaves_move_applied:
  "findBestMove tree_engine 2 zero_draws faulty_game
     = Some (Throws \<lparr>game = [faulty_reply, faulty_tree], nodeCount = 1\<rparr>)
   \<and> game \<lparr>game = [faulty_reply, faulty_tree], nodeCount = 1\<rparr> \<noteq> game faulty_game"
proof -
  have "findBestMove tree_engine 2 zero_draws faulty_game
     = Some (Throws \<lparr>game = [faulty_reply, faulty_tree], nodeCount = 1\<rparr>)"
    unfolding findBestMove_def minimax_def by code_simp
  then show ?thesis by (simp add: faulty_game_def)
qed

text \<open>
  Claim C2 as amended: if an exception thrown by \<^verbatim>\<open>game.move\<close> comes out of
  \<^verbatim>\<open>findBestMove\<close>, nothing is undone on the way out. The position left behind is the one
  in which the throwing call was made; it is reached from the position before the call by
  applying the moves of the line being searched, fewer of them than \<open>depth\<close>.
\<close>

theorem C2_exception_leaves_line_applied:
  assumes "1 \<le> depth" and "draws R" and "undo_contract E (nat depth) (game s)"
    and "findBestMove E depth R (s::'g quickchess) = Some (Throws s')"
  shows "\<exists>line. length line < nat depth \<and> apply_moves E (game s) line = Some (game s')
           \<and> (\<exists>m \<in> set (moves E (game s')). move E (game s') m = Raised)"
  using findBestMove_left_at [OF assms] by (simp add: left_at_def)

theorem C2_exception_leaves_line_applied_witness:
  "(1::int) \<le> 2 \<and> draws zero_draws \<and> undo_contract tree_engine (nat 2) (game faulty_game)
   \<and> findBestMove tree_engine 2 zero_draws faulty_game
       = Some (Throws \<lparr>game = [faulty_reply, faulty_tree], nodeCount = 1\<rparr>)
   \<and> (\<exists>line. length line < nat 2
         \<and> apply_moves tree_engine (game faulty_game) line = Some [faulty_reply, faulty_tree]
         \<and> (\<exists>m \<in> set (moves tree_engine [faulty_reply, faulty_tree]).
               move tree_engine [faulty_reply, faulty_tree] m = Raised))"
proof -
  have c: "undo_contract tree_engine (nat 2) (game faulty_game)"
    by code_simp
  have r: "findBestMove tree_engine 2 zero_draws faulty_game
     = Some (Throws \<lparr>game = [faulty_reply, faulty_tree], nodeCount = 1\<rparr>)"
    unfolding findBestMove_def minimax_def by code_simp
  from C2_exception_leaves_line_applied [OF _ draws_zero c r] draws_zero c r
  show ?thesis by simp
qed

section \<open>Pruning and the search without pruning\<close>

subsection \<open>Order and negation on numbers\<close>

lemma num_bounds [simp]:
  "MInf \<le> x" "x \<le> PInf" "\<not> x < MInf" "\<not> PInf < x"
  "(x \<le> MInf) = (x = MInf)" "(PInf \<le> x) = (x = PInf)"
  "(MInf < x) = (x \<noteq> MInf)" "(x < PInf) = (x \<noteq> PInf)"
  by (cases x; simp add: less_num_def)+

lemma Fin_order [simp]: "(Fin a \<le> Fin b) = (a \<le> b)" "(Fin a < Fin b) = (a < b)"
  by (auto simp: less_num_def)

lemma num_max_min_inf [simp]:
  "max MInf x = x" "max x MInf = x" "min PInf x = x" "min x PInf = x"
  "max PInf x = PInf" "max x PInf = PInf" "min MInf x = MInf" "min x MInf = MInf"
  by (simp_all add: max_def min_def)

lemma num_neg_neg [simp]: "- (- x) = (x::num)"
  by (cases x) simp_all

lemma num_neg_le [simp]: "(- x \<le> - y) = (y \<le> (x::num))"
  by (cases x; cases y) simp_all

lemma num_neg_less [simp]: "(- x < - y) = (y < (x::num))"
  by (simp add: less_num_def)

lemma num_less_neg: "(x < - y) = (y < - (x::num))"
  using num_neg_less [of "- x" y] by simp

lemma num_neg_eq_iff [simp]: "(- x = - y) = (x = (y::num))"
  by (cases x; cases y) simp_all

subsection \<open>Windows\<close>

lemma clamp_below: "x \<le> a \<Longrightarrow> clamp a b x = a"
  by (auto simp: clamp_def max_def min_def)

lemma clamp_above: "a < b \<Longrightarrow> b \<le> x \<Longrightarrow> clamp a b x = b"
  by (auto simp: clamp_def max_def min_def)

lemma clamp_max_break:
  assumes "a < b" "b \<le> max a r" "clamp a b r = clamp a b v" "r \<le> R"
  shows "clamp a b R = clamp a b (max v V)"
  using assms unfolding clamp_def by (auto simp: max_def min_def split: if_splits)

lemma clamp_max_continue:
  assumes "max a r < b" "clamp a b r = clamp a b v" "r \<le> R"
    "clamp (max a r) b R = clamp (max a r) b V"
  shows "clamp a b R = clamp a b (max v V)"
  using assms unfolding clamp_def by (auto simp: max_def min_def split: if_splits)

lemma clamp_min_break:
  assumes "a < b" "min b r \<le> a" "clamp a b r = clamp a b v" "R \<le> r"
  shows "clamp a b R = clamp a b (min v V)"
  using assms unfolding clamp_def by (auto simp: max_def min_def split: if_splits)

lemma clamp_min_continue:
  assumes "a < min b r" "clamp a b r = clamp a b v" "R \<le> r"
    "clamp a (min b r) R = clamp a (min b r) V"
  shows "clamp a b R = clamp a b (min v V)"
  using assms unfolding clamp_def by (auto simp: max_def min_def split: if_splits)

lemma clamp_full [simp]: "clamp MInf PInf x = x"
  by (simp add: clamp_def)

lemma fold_max_acc:
  "fold (\<lambda>m maxEval. case move E g m of Applied g' \<Rightarrow> max maxEval (f g') | _ \<Rightarrow> maxEval) ms acc
   = max acc (fold (\<lambda>m maxEval. case move E g m of Applied g' \<Rightarrow> max maxEval (f g')
                                   | _ \<Rightarrow> maxEval) ms MInf)"
proof (induction ms arbitrary: acc)
  case Nil
  show ?case by simp
next
  case (Cons m ms)
  show ?case
  proof (cases "move E g m")
    case (Applied g')
    then show ?thesis
      using Cons.IH [of "max acc (f g')"] Cons.IH [of "f g'"] by (simp add: max.assoc)
  next
    case Rejected
    then show ?thesis using Cons.IH [of acc] by simp
  next
    case Raised
    then show ?thesis using Cons.IH [of acc] by simp
  qed
qed

lemma fold_min_acc:
  "fold (\<lambda>m minEval. case move E g m of Applied g' \<Rightarrow> min minEval (f g') | _ \<Rightarrow> minEval) ms acc
   = min acc (fold (\<lambda>m minEval. case move E g m of Applied g' \<Rightarrow> min minEval (f g')
                                   | _ \<Rightarrow> minEval) ms PInf)"
proof (induction ms arbitrary: acc)
  case Nil
  show ?case by simp
next
  case (Cons m ms)
  show ?case
  proof (cases "move E g m")
    case (Applied g')
    then show ?thesis
      using Cons.IH [of "min acc (f g')"] Cons.IH [of "f g'"] by (simp add: min.assoc)
  next
    case Rejected
    then show ?thesis using Cons.IH [of acc] by simp
  next
    case Raised
    then show ?thesis using Cons.IH [of acc] by simp
  qed
qed


subsection \<open>Pruning against the search without pruning\<close>

lemma rules_contract_step:
  assumes "rules_contract E (Suc d) g" and "m \<in> set (moves E g)"
  shows "\<exists>g'. move E g m = Applied g' \<and> undo E g' = g \<and> rules_contract E d g'"
  using assms by (cases "move E g m") auto

lemma maxLoop_clamp:
  assumes IH: "\<And>a b mx (s::'g quickchess). rules_contract E d (game s) \<Longrightarrow> a < b \<Longrightarrow>
      \<exists>r n. minimax E (int d) a b mx s = Some (Returns (Fin r) (s\<lparr>nodeCount := n\<rparr>))
             \<and> clamp a b (Fin r) = clamp a b (fullwidth E d mx (game s))"
    and C: "rules_contract E (Suc d) g"
  shows "set ms \<subseteq> set (moves E g) \<Longrightarrow> game s = g \<Longrightarrow> maxEval \<le> alpha \<Longrightarrow> alpha < beta \<Longrightarrow>
         maxEval \<noteq> PInf \<Longrightarrow>
         \<exists>R n. maxLoop E (int (Suc d)) alpha beta maxEval ms s = Some (Returns R (s\<lparr>nodeCount := n\<rparr>))
               \<and> maxEval \<le> R \<and> R \<noteq> PInf \<and> (ms \<noteq> [] \<longrightarrow> R \<noteq> MInf)
               \<and> clamp alpha beta R
                   = clamp alpha beta
                      (fold (\<lambda>m maxEval. case move E g m of
                                Applied g' \<Rightarrow> max maxEval (fullwidth E d False g')
                              | _ \<Rightarrow> maxEval) ms MInf)"
proof (induction ms arbitrary: alpha maxEval s)
  case Nil
  have "s\<lparr>nodeCount := nodeCount s\<rparr> = s" by simp
  with Nil show ?case
    by (auto simp: maxLoop_Nil clamp_below intro!: exI [of _ "nodeCount s"])
next
  case (Cons m rest)
  let ?F = "\<lambda>m maxEval. case move E g m of
                Applied g' \<Rightarrow> max maxEval (fullwidth E d False g') | _ \<Rightarrow> maxEval"
  from Cons.prems have m: "m \<in> set (moves E g)" and rest: "set rest \<subseteq> set (moves E g)"
    by simp_all
  from rules_contract_step [OF C m]
  obtain g' where g': "move E g m = Applied g'" "undo E g' = g" "rules_contract E d g'"
    by blast
  let ?v = "fullwidth E d False g'"
  from IH [of "s\<lparr>game := g'\<rparr>" alpha beta False] g' Cons.prems(4)
  obtain r n1 where r: "minimax E (int d) alpha beta False (s\<lparr>game := g'\<rparr>)
                          = Some (Returns (Fin r) (s\<lparr>game := g', nodeCount := n1\<rparr>))"
    and cl: "clamp alpha beta (Fin r) = clamp alpha beta ?v"
    by auto
  have s2: "s\<lparr>game := g', nodeCount := n1\<rparr>\<lparr>game := undo E (game (s\<lparr>game := g', nodeCount := n1\<rparr>))\<rparr>
              = s\<lparr>nodeCount := n1\<rparr>"
    using g'(2) Cons.prems(2) by simp
  have fold_eq: "fold ?F (m # rest) MInf = max ?v (fold ?F rest MInf)"
    using g'(1) fold_max_acc [where E = E and g = g and f = "fullwidth E d False" and ms = rest and acc = ?v] by simp
  show ?case
  proof (cases "beta \<le> max alpha (Fin r)")
    case True
    have "maxLoop E (int (Suc d)) alpha beta maxEval (m # rest) s
            = Some (Returns (max maxEval (Fin r)) (s\<lparr>nodeCount := n1\<rparr>))"
      using True r g'(1) Cons.prems(2) s2 by (simp add: maxLoop_Cons Let_def del: of_nat_Suc)
    moreover have "clamp alpha beta (max maxEval (Fin r)) = clamp alpha beta (fold ?F (m # rest) MInf)"
      unfolding fold_eq
      by (rule clamp_max_break [OF Cons.prems(4) True cl]) simp
    moreover have "max maxEval (Fin r) \<noteq> PInf" "max maxEval (Fin r) \<noteq> MInf"
      using Cons.prems(5) by (auto simp: max_def)
    ultimately show ?thesis by auto
  next
    case False
    then have lt: "max alpha (Fin r) < beta" by (simp only: not_le)
    have loop: "maxLoop E (int (Suc d)) alpha beta maxEval (m # rest) s
            = maxLoop E (int (Suc d)) (max alpha (Fin r)) beta (max maxEval (Fin r)) rest
                (s\<lparr>nodeCount := n1\<rparr>)"
      using False r g'(1) Cons.prems(2) s2 by (simp add: maxLoop_Cons Let_def del: of_nat_Suc)
    have "max maxEval (Fin r) \<noteq> PInf"
      using Cons.prems(5) by (auto simp: max_def)
    from Cons.IH [OF rest _ _ lt this, of "s\<lparr>nodeCount := n1\<rparr>"] Cons.prems(2,3)
    obtain R n where R: "maxLoop E (int (Suc d)) (max alpha (Fin r)) beta (max maxEval (Fin r)) rest
                           (s\<lparr>nodeCount := n1\<rparr>) = Some (Returns R (s\<lparr>nodeCount := n\<rparr>))"
      and R1: "max maxEval (Fin r) \<le> R" and R2: "R \<noteq> PInf"
      and R3: "clamp (max alpha (Fin r)) beta R = clamp (max alpha (Fin r)) beta (fold ?F rest MInf)"
      by (auto simp: max.coboundedI1)
    from R1 have rR: "Fin r \<le> R" and mR: "maxEval \<le> R" by simp_all
    have "clamp alpha beta R = clamp alpha beta (fold ?F (m # rest) MInf)"
      unfolding fold_eq by (rule clamp_max_continue [OF lt cl rR R3])
    moreover from rR have "R \<noteq> MInf" by auto
    ultimately show ?thesis using loop R mR R2 by auto
  qed
qed


lemma minLoop_clamp:
  assumes IH: "\<And>a b mx (s::'g quickchess). rules_contract E d (game s) \<Longrightarrow> a < b \<Longrightarrow>
      \<exists>r n. minimax E (int d) a b mx s = Some (Returns (Fin r) (s\<lparr>nodeCount := n\<rparr>))
             \<and> clamp a b (Fin r) = clamp a b (fullwidth E d mx (game s))"
    and C: "rules_contract E (Suc d) g"
  shows "set ms \<subseteq> set (moves E g) \<Longrightarrow> game s = g \<Longrightarrow> beta \<le> minEval \<Longrightarrow> alpha < beta \<Longrightarrow>
         minEval \<noteq> MInf \<Longrightarrow>
         \<exists>R n. minLoop E (int (Suc d)) alpha beta minEval ms s = Some (Returns R (s\<lparr>nodeCount := n\<rparr>))
               \<and> R \<le> minEval \<and> R \<noteq> MInf \<and> (ms \<noteq> [] \<longrightarrow> R \<noteq> PInf)
               \<and> clamp alpha beta R
                   = clamp alpha beta
                      (fold (\<lambda>m minEval. case move E g m of
                                Applied g' \<Rightarrow> min minEval (fullwidth E d True g')
                              | _ \<Rightarrow> minEval) ms PInf)"
proof (induction ms arbitrary: beta minEval s)
  case Nil
  have "s\<lparr>nodeCount := nodeCount s\<rparr> = s" by simp
  with Nil show ?case
    by (auto simp: minLoop_Nil clamp_above intro!: exI [of _ "nodeCount s"])
next
  case (Cons m rest)
  let ?F = "\<lambda>m minEval. case move E g m of
                Applied g' \<Rightarrow> min minEval (fullwidth E d True g') | _ \<Rightarrow> minEval"
  from Cons.prems have m: "m \<in> set (moves E g)" and rest: "set rest \<subseteq> set (moves E g)"
    by simp_all
  from rules_contract_step [OF C m]
  obtain g' where g': "move E g m = Applied g'" "undo E g' = g" "rules_contract E d g'"
    by blast
  let ?v = "fullwidth E d True g'"
  from IH [of "s\<lparr>game := g'\<rparr>" alpha beta True] g' Cons.prems(4)
  obtain r n1 where r: "minimax E (int d) alpha beta True (s\<lparr>game := g'\<rparr>)
                          = Some (Returns (Fin r) (s\<lparr>game := g', nodeCount := n1\<rparr>))"
    and cl: "clamp alpha beta (Fin r) = clamp alpha beta ?v"
    by auto
  have s2: "s\<lparr>game := g', nodeCount := n1\<rparr>\<lparr>game := undo E (game (s\<lparr>game := g', nodeCount := n1\<rparr>))\<rparr>
              = s\<lparr>nodeCount := n1\<rparr>"
    using g'(2) Cons.prems(2) by simp
  have fold_eq: "fold ?F (m # rest) PInf = min ?v (fold ?F rest PInf)"
    using g'(1) fold_min_acc [where E = E and g = g and f = "fullwidth E d True"
                                and ms = rest and acc = ?v] by simp
  show ?case
  proof (cases "min beta (Fin r) \<le> alpha")
    case True
    have "minLoop E (int (Suc d)) alpha beta minEval (m # rest) s
            = Some (Returns (min minEval (Fin r)) (s\<lparr>nodeCount := n1\<rparr>))"
      using True r g'(1) Cons.prems(2) s2 by (simp add: minLoop_Cons Let_def del: of_nat_Suc)
    moreover have "clamp alpha beta (min minEval (Fin r)) = clamp alpha beta (fold ?F (m # rest) PInf)"
      unfolding fold_eq
      by (rule clamp_min_break [OF Cons.prems(4) True cl]) simp
    moreover have "min minEval (Fin r) \<noteq> PInf" "min minEval (Fin r) \<noteq> MInf"
      using Cons.prems(5) by (auto simp: min_def)
    ultimately show ?thesis by auto
  next
    case False
    then have lt: "alpha < min beta (Fin r)" by (simp only: not_le)
    have loop: "minLoop E (int (Suc d)) alpha beta minEval (m # rest) s
            = minLoop E (int (Suc d)) alpha (min beta (Fin r)) (min minEval (Fin r)) rest
                (s\<lparr>nodeCount := n1\<rparr>)"
      using False r g'(1) Cons.prems(2) s2 by (simp add: minLoop_Cons Let_def del: of_nat_Suc)
    have "min minEval (Fin r) \<noteq> MInf"
      using Cons.prems(5) by (auto simp: min_def)
    from Cons.IH [OF rest _ _ lt this, of "s\<lparr>nodeCount := n1\<rparr>"] Cons.prems(2,3)
    obtain R n where R: "minLoop E (int (Suc d)) alpha (min beta (Fin r)) (min minEval (Fin r)) rest
                           (s\<lparr>nodeCount := n1\<rparr>) = Some (Returns R (s\<lparr>nodeCount := n\<rparr>))"
      and R1: "R \<le> min minEval (Fin r)" and R2: "R \<noteq> MInf"
      and R3: "clamp alpha (min beta (Fin r)) R = clamp alpha (min beta (Fin r)) (fold ?F rest PInf)"
      by (auto simp: min.coboundedI1)
    from R1 have rR: "R \<le> Fin r" and mR: "R \<le> minEval" by simp_all
    have "clamp alpha beta R = clamp alpha beta (fold ?F (m # rest) PInf)"
      unfolding fold_eq by (rule clamp_min_continue [OF lt cl rR R3])
    moreover from rR have "R \<noteq> PInf" by auto
    ultimately show ?thesis using loop R mR R2 by auto
  qed
qed

lemma num_finite: "x \<noteq> MInf \<Longrightarrow> x \<noteq> PInf \<Longrightarrow> \<exists>r. x = Fin r"
  by (cases x) simp_all

lemma minimax_clamp:
  "rules_contract E d (game s) \<Longrightarrow> a < b \<Longrightarrow>
     \<exists>r n. minimax E (int d) a b mx (s::'g quickchess) = Some (Returns (Fin r) (s\<lparr>nodeCount := n\<rparr>))
           \<and> clamp a b (Fin r) = clamp a b (fullwidth E d mx (game s))"
proof (induction d arbitrary: a b mx s)
  case 0
  show ?case
    by (auto simp: minimax_unfold intro!: exI [of _ "nodeCount s + 1"])
next
  case (Suc d)
  let ?s = "s\<lparr>nodeCount := nodeCount s + 1\<rparr>"
  show ?case
  proof (cases "game_over E (game s) \<or> length (moves E (game s)) = 0")
    case True
    then show ?thesis
      by (auto simp: minimax_unfold Let_def simp del: of_nat_Suc
               intro!: exI [of _ "nodeCount s + 1"])
  next
    case False
    show ?thesis
    proof (cases mx)
      case True
      from maxLoop_clamp [where E = E and d = d and g = "game s" and ms = "moves E (game s)"
                            and s = ?s and alpha = a and beta = b and maxEval = MInf,
                          OF Suc.IH Suc.prems(1)]
        Suc.prems(2) False
      obtain R n where R: "maxLoop E (int (Suc d)) a b MInf (moves E (game s)) ?s
                             = Some (Returns R (s\<lparr>nodeCount := n\<rparr>))"
        and fin: "R \<noteq> PInf" "R \<noteq> MInf"
        and cl: "clamp a b R = clamp a b (fullwidth E (Suc d) True (game s))"
        by auto
      from num_finite [OF fin(2,1)] obtain r where "R = Fin r" ..
      with R cl False True show ?thesis
        by (auto simp: minimax_unfold Let_def simp del: of_nat_Suc fullwidth.simps)
    next
      case mn: False
      from minLoop_clamp [where E = E and d = d and g = "game s" and ms = "moves E (game s)"
                            and s = ?s and alpha = a and beta = b and minEval = PInf,
                          OF Suc.IH Suc.prems(1)]
        Suc.prems(2) False
      obtain R n where R: "minLoop E (int (Suc d)) a b PInf (moves E (game s)) ?s
                             = Some (Returns R (s\<lparr>nodeCount := n\<rparr>))"
        and fin: "R \<noteq> PInf" "R \<noteq> MInf"
        and cl: "clamp a b R = clamp a b (fullwidth E (Suc d) False (game s))"
        by auto
      from num_finite [OF fin(2,1)] obtain r where "R = Fin r" ..
      with R cl False mn show ?thesis
        by (auto simp: minimax_unfold Let_def simp del: of_nat_Suc fullwidth.simps)
    qed
  qed
qed

section \<open>The root of the search\<close>

lemma fullwidth_finite:
  assumes "rules_contract E d g"
  shows "\<exists>r. fullwidth E d mx g = Fin r"
proof -
  from minimax_clamp [of E d "\<lparr>game = g, nodeCount = 0\<rparr>" MInf PInf mx] assms
  obtain r where "clamp MInf PInf (Fin r) = clamp MInf PInf (fullwidth E d mx g)"
    by auto
  then have "fullwidth E d mx g = Fin r" by simp
  then show ?thesis ..
qed

lemma nat_int_Suc_pred [simp]: "nat (int (Suc d) - 1) = d"
  by simp

lemma rootValue_applied:
  "move E g m = Applied g' \<Longrightarrow> rootValue E (int (Suc d)) g m = - fullwidth E d False g'"
  by (simp add: rootValue_def del: of_nat_Suc)

lemma root_cutoff_condition: "alpha \<noteq> PInf \<Longrightarrow> (PInf \<le> max alpha val) = (val = PInf)"
  by (auto simp: max_def)

lemma root_child:
  assumes C: "rules_contract E (Suc d) g" and m: "m \<in> set (moves E g)" and g: "game s = g"
    and a: "alpha \<noteq> PInf"
  obtains g' r n where "move E g m = Applied g'"
    and "minimax E (int d) MInf (- alpha) False (s\<lparr>game := g'\<rparr>)
           = Some (Returns (Fin r) (s\<lparr>game := g', nodeCount := n\<rparr>))"
    and "s\<lparr>game := g', nodeCount := n\<rparr>\<lparr>game := undo E (game (s\<lparr>game := g', nodeCount := n\<rparr>))\<rparr>
           = s\<lparr>nodeCount := n\<rparr>"
    and "min (- alpha) (Fin r) = min (- alpha) (fullwidth E d False g')"
proof -
  from rules_contract_step [OF C m]
  obtain g' where g': "move E g m = Applied g'" "undo E g' = g" "rules_contract E d g'"
    by blast
  from a have "MInf < - alpha" by (cases alpha) simp_all
  from minimax_clamp [of E d "s\<lparr>game := g'\<rparr>" MInf "- alpha" False, OF _ this] g'(3)
  obtain r n where r: "minimax E (int d) MInf (- alpha) False (s\<lparr>game := g'\<rparr>)
           = Some (Returns (Fin r) (s\<lparr>game := g', nodeCount := n\<rparr>))"
    and cl: "clamp MInf (- alpha) (Fin r) = clamp MInf (- alpha) (fullwidth E d False g')"
    by auto
  from cl have "min (- alpha) (Fin r) = min (- alpha) (fullwidth E d False g')"
    by (simp add: clamp_def)
  moreover have "s\<lparr>game := g', nodeCount := n\<rparr>\<lparr>game := undo E (game (s\<lparr>game := g', nodeCount := n\<rparr>))\<rparr>
           = s\<lparr>nodeCount := n\<rparr>"
    using g'(2) g by simp
  ultimately show thesis using that g'(1) r by blast
qed

lemma rootLoop_never_breaks:
  assumes C: "rules_contract E (Suc d) g"
  shows "set ms \<subseteq> set (moves E g) \<Longrightarrow> game s = g \<Longrightarrow> alpha \<noteq> PInf \<Longrightarrow>
         rootLoop E (int (Suc d)) alpha PInf bestValue bestMove ms (s::'g quickchess)
         = rootLoop_no_break E (int (Suc d)) alpha PInf bestValue bestMove ms s"
proof (induction ms arbitrary: alpha bestValue bestMove s)
  case Nil
  show ?case by simp
next
  case (Cons m rest)
  from Cons.prems have m: "m \<in> set (moves E g)" and rest: "set rest \<subseteq> set (moves E g)"
    by simp_all
  from root_child [OF C m Cons.prems(2,3)]
  obtain g' r n where g': "move E g m = Applied g'"
    and r: "minimax E (int d) MInf (- alpha) False (s\<lparr>game := g'\<rparr>)
           = Some (Returns (Fin r) (s\<lparr>game := g', nodeCount := n\<rparr>))"
    and s2: "s\<lparr>game := g', nodeCount := n\<rparr>\<lparr>game := undo E (game (s\<lparr>game := g', nodeCount := n\<rparr>))\<rparr>
           = s\<lparr>nodeCount := n\<rparr>"
    by blast
  have a': "max alpha (Fin (- r)) \<noteq> PInf"
    using Cons.prems(3) by (auto simp: max_def)
  have "game (s\<lparr>nodeCount := n\<rparr>) = g" using Cons.prems(2) by simp
  from Cons.IH [OF rest this a'] g' r s2 a' Cons.prems(2)
  show ?case
    by (simp add: Let_def del: of_nat_Suc)
qed

lemma rootLoop_fullwidth:
  assumes C: "rules_contract E (Suc d) g"
  shows "set ms \<subseteq> set (moves E g) \<Longrightarrow> game s = g \<Longrightarrow> bestValue \<noteq> PInf \<Longrightarrow>
         \<exists>n. rootLoop E (int (Suc d)) bestValue PInf bestValue bestMove ms (s::'g quickchess)
               = Some (Returns (snd (fullwidthRoot E (int (Suc d)) g bestValue bestMove ms))
                        (s\<lparr>nodeCount := n\<rparr>))"
proof (induction ms arbitrary: bestValue bestMove s)
  case Nil
  have "s\<lparr>nodeCount := nodeCount s\<rparr> = s" by simp
  then show ?case by (auto intro!: exI [of _ "nodeCount s"])
next
  case (Cons m rest)
  from Cons.prems have m: "m \<in> set (moves E g)" and rest: "set rest \<subseteq> set (moves E g)"
    by simp_all
  from root_child [OF C m Cons.prems(2,3)]
  obtain g' r n where g': "move E g m = Applied g'"
    and r: "minimax E (int d) MInf (- bestValue) False (s\<lparr>game := g'\<rparr>)
           = Some (Returns (Fin r) (s\<lparr>game := g', nodeCount := n\<rparr>))"
    and s2: "s\<lparr>game := g', nodeCount := n\<rparr>\<lparr>game := undo E (game (s\<lparr>game := g', nodeCount := n\<rparr>))\<rparr>
           = s\<lparr>nodeCount := n\<rparr>"
    and cl: "min (- bestValue) (Fin r) = min (- bestValue) (fullwidth E d False g')"
    by blast
  let ?val = "Fin (- r)"
  have gs: "game (s\<lparr>nodeCount := n\<rparr>) = g" using Cons.prems(2) by simp
  have rv: "rootValue E (int (Suc d)) g m = - fullwidth E d False g'"
    using g' by (rule rootValue_applied)
  show ?case
  proof (cases "bestValue < ?val")
    case True
    then have "Fin r < - bestValue" using num_less_neg [of bestValue "Fin r"] by simp
    with cl have "fullwidth E d False g' = Fin r"
      by (auto simp: min_def split: if_splits)
    with rv True have full: "fullwidthRoot E (int (Suc d)) g bestValue bestMove (m # rest)
                         = fullwidthRoot E (int (Suc d)) g ?val (Some m) rest"
      by (simp add: Let_def del: of_nat_Suc)
    have mx: "max bestValue ?val = ?val" using True by (simp add: max.absorb2 less_imp_le)
    have "?val \<noteq> PInf" by simp
    from Cons.IH [OF rest gs this, of "Some m"]
    obtain n' where "rootLoop E (int (Suc d)) ?val PInf ?val (Some m) rest (s\<lparr>nodeCount := n\<rparr>)
               = Some (Returns (snd (fullwidthRoot E (int (Suc d)) g ?val (Some m) rest))
                        (s\<lparr>nodeCount := n'\<rparr>))"
      by auto
    with g' r s2 True mx full Cons.prems(2) show ?thesis
      by (auto simp: Let_def simp del: of_nat_Suc)
  next
    case False
    then have "\<not> Fin r < - bestValue" using num_less_neg [of bestValue "Fin r"] by simp
    with cl have "- bestValue \<le> fullwidth E d False g'"
      by (auto simp: min_def split: if_splits)
    then have "\<not> bestValue < - fullwidth E d False g'"
      using num_less_neg [of bestValue "fullwidth E d False g'"] by simp
    with rv have full: "fullwidthRoot E (int (Suc d)) g bestValue bestMove (m # rest)
                         = fullwidthRoot E (int (Suc d)) g bestValue bestMove rest"
      by (simp add: Let_def del: of_nat_Suc)
    have mx: "max bestValue ?val = bestValue" using False by (simp add: max.absorb1 not_less)
    from Cons.IH [OF rest gs Cons.prems(3), of bestMove]
    obtain n' where "rootLoop E (int (Suc d)) bestValue PInf bestValue bestMove rest (s\<lparr>nodeCount := n\<rparr>)
               = Some (Returns (snd (fullwidthRoot E (int (Suc d)) g bestValue bestMove rest))
                        (s\<lparr>nodeCount := n'\<rparr>))"
      by auto
    with g' r s2 False mx full Cons.prems(2,3) show ?thesis
      by (auto simp: Let_def simp del: of_nat_Suc)
  qed
qed

lemma fullwidthRoot_best:
  "fullwidthRoot E depth g bv bm ms = (bv', bm') \<Longrightarrow>
     bv \<le> bv' \<and> (\<forall>m \<in> set ms. rootValue E depth g m \<le> bv')
     \<and> ((bv' = bv \<and> bm' = bm)
         \<or> (\<exists>m \<in> set ms. bm' = Some m \<and> bv' = rootValue E depth g m \<and> bv < bv'))"
proof (induction ms arbitrary: bv bm)
  case Nil
  then show ?case by simp
next
  case (Cons m rest)
  show ?case
  proof (cases "bv < rootValue E depth g m")
    case True
    with Cons.prems have "fullwidthRoot E depth g (rootValue E depth g m) (Some m) rest = (bv', bm')"
      by (simp add: Let_def)
    from Cons.IH [OF this] True show ?thesis
      by (auto intro: less_le_trans)
  next
    case False
    with Cons.prems have "fullwidthRoot E depth g bv bm rest = (bv', bm')"
      by (simp add: Let_def)
    from Cons.IH [OF this] False show ?thesis
      by (auto intro: order_trans)
  qed
qed


lemma minimax_full_window:
  assumes "rules_contract E d (game s)"
  shows "\<exists>n. minimax E (int d) MInf PInf mx (s::'g quickchess)
               = Some (Returns (fullwidth E d mx (game s)) (s\<lparr>nodeCount := n\<rparr>))"
  using minimax_clamp [of E d s MInf PInf mx] assms by auto

lemma rootValue_finite:
  assumes "rules_contract E (Suc d) g" and "m \<in> set (moves E g)"
  shows "\<exists>r. rootValue E (int (Suc d)) g m = Fin r"
proof -
  from rules_contract_step [OF assms]
  obtain g' where g': "move E g m = Applied g'" "rules_contract E d g'" by blast
  from fullwidth_finite [OF g'(2), of False] obtain r where "fullwidth E d False g' = Fin r" ..
  with rootValue_applied [OF g'(1), of d] show ?thesis by simp
qed

lemma depth_Suc:
  assumes "1 \<le> depth"
  shows "depth = int (Suc (nat (depth - 1)))" and "nat depth = Suc (nat (depth - 1))"
  using assms by simp_all

lemma findBestMove_fullwidth:
  assumes "1 \<le> depth" and "draws R" and "rules_contract E (nat depth) (game s)"
    and "0 < length (moves E (game s))"
  shows "\<exists>n. findBestMove E depth R (s::'g quickchess)
               = Some (Returns (snd (fullwidthRoot E depth (game s) MInf None
                                       (orderMoves R (moves E (game s)))))
                        (s\<lparr>nodeCount := n\<rparr>))"
proof -
  define d where "d = nat (depth - 1)"
  have d: "depth = int (Suc d)" and nd: "nat depth = Suc d"
    using depth_Suc [OF assms(1)] by (simp_all only: d_def)
  from assms(3) have C: "rules_contract E (Suc d) (game s)" by (simp only: nd)
  have sub: "set (orderMoves R (moves E (game s))) \<subseteq> set (moves E (game s))"
    using assms(2) by (simp add: orderMoves_set)
  from rootLoop_fullwidth [OF C sub, of s MInf None] assms(4)
  show ?thesis
    by (simp add: findBestMove_def d Let_def del: of_nat_Suc)
qed

lemma fullwidthRoot_choice:
  assumes "1 \<le> depth" and "draws R" and "rules_contract E (nat depth) g"
    and "0 < length (moves E g)"
  shows "\<exists>m \<in> set (moves E g).
           fullwidthRoot E depth g MInf None (orderMoves R (moves E g))
             = (rootValue E depth g m, Some m)
           \<and> (\<forall>m' \<in> set (moves E g). rootValue E depth g m' \<le> rootValue E depth g m)"
proof -
  define d where "d = nat (depth - 1)"
  have d: "depth = int (Suc d)" and nd: "nat depth = Suc d"
    using depth_Suc [OF assms(1)] by (simp_all only: d_def)
  from assms(3) have C: "rules_contract E (Suc d) g" by (simp only: nd)
  let ?ms = "orderMoves R (moves E g)"
  have set_eq: "set ?ms = set (moves E g)"
    using assms(2) by (rule orderMoves_set)
  obtain bv' bm' where res: "fullwidthRoot E depth g MInf None ?ms = (bv', bm')"
    by (cases "fullwidthRoot E depth g MInf None ?ms")
  note best = fullwidthRoot_best [OF res]
  from assms(4) obtain m0 where m0: "m0 \<in> set (moves E g)"
    by (cases "moves E g") auto
  from rootValue_finite [OF C m0] d obtain r0 where r0: "rootValue E depth g m0 = Fin r0"
    by auto
  from best m0 set_eq have "rootValue E depth g m0 \<le> bv'" by blast
  with r0 have "bv' \<noteq> MInf" by auto
  with best obtain m where "m \<in> set ?ms" "bm' = Some m" "bv' = rootValue E depth g m"
    by blast
  with best res set_eq show ?thesis by auto
qed

text \<open>
  Claim C3: when the position has N legal moves and \<open>depth\<close> is at least 1,
  \<^verbatim>\<open>findBestMove(depth)\<close> returns one of these moves if there is one, and it returns
  \<^verbatim>\<open>null\<close> if and only if N is 0. This holds for a game object that applies the moves it
  lists and takes them back, which is what the code expects of chess.js.
\<close>

theorem C3_findBestMove_returns_legal_move:
  assumes "1 \<le> depth" and "draws R" and "rules_contract E (nat depth) (game s)"
  shows "\<exists>best s'. findBestMove E depth R (s::'g quickchess) = Some (Returns best s')
           \<and> (0 < length (moves E (game s)) \<longrightarrow> (\<exists>m \<in> set (moves E (game s)). best = Some m))
           \<and> (best = None \<longleftrightarrow> length (moves E (game s)) = 0)"
proof (cases "0 < length (moves E (game s))")
  case True
  from findBestMove_fullwidth [OF assms True] fullwidthRoot_choice [OF assms True] True
  show ?thesis by auto
next
  case False
  then show ?thesis by (simp add: findBestMove_def)
qed


lemma small_game_contract: "rules_contract tree_engine (nat 3) (game small_game)"
  by code_simp

lemma small_game_search:
  "findBestMove tree_engine 3 zero_draws small_game
     = Some (Returns (Some capture_move) (small_game\<lparr>nodeCount := 6\<rparr>))"
  unfolding findBestMove_def minimax_def by code_simp

lemma small_game_moves:
  "tree_moves (game small_game) = [capture_move, quiet_move]"
  "moves tree_engine (game small_game) = [capture_move, quiet_move]"
  by (simp_all add: small_game_def small_tree_def tree_moves_def)

theorem C3_findBestMove_returns_legal_move_witness:
  "(1::int) \<le> 3 \<and> draws zero_draws \<and> rules_contract tree_engine (nat 3) (game small_game)
   \<and> 0 < length (moves tree_engine (game small_game))
   \<and> findBestMove tree_engine 3 zero_draws small_game
       = Some (Returns (Some capture_move) (small_game\<lparr>nodeCount := 6\<rparr>))
   \<and> capture_move \<in> set (moves tree_engine (game small_game))"
proof -
  from C3_findBestMove_returns_legal_move [OF _ draws_zero small_game_contract]
  obtain best s' where "findBestMove tree_engine 3 zero_draws small_game = Some (Returns best s')"
    and "0 < length (moves tree_engine (game small_game)) \<longrightarrow>
           (\<exists>m \<in> set (moves tree_engine (game small_game)). best = Some m)"
    by auto
  with small_game_search have "capture_move \<in> set (moves tree_engine (game small_game))"
    by (auto simp: small_game_moves)
  with draws_zero small_game_contract small_game_search show ?thesis
    by (simp add: small_game_moves)
qed

text \<open>
  Claim C4: for a fixed position and depth, the root move that \<^verbatim>\<open>findBestMove\<close> chooses
  with the \<^verbatim>\<open>break\<close> statements in place has the value that the search without pruning
  computes. The search without pruning is \<open>fullwidth\<close>, with \<open>fullwidthRoot\<close> at the root,
  on the moves in the order \<^verbatim>\<open>orderMoves\<close> gave them. The move returned is the one
  \<open>fullwidthRoot\<close> finds, the best value of \<open>fullwidthRoot\<close> is the value of that move,
  and no legal move has a greater one.
\<close>

theorem C4_pruning_keeps_root_choice:
  assumes "1 \<le> depth" and "draws R" and "rules_contract E (nat depth) (game s)"
    and "0 < length (moves E (game s))"
  shows "\<exists>m s'. findBestMove E depth R (s::'g quickchess) = Some (Returns (Some m) s')
           \<and> fullwidthRoot E depth (game s) MInf None (orderMoves R (moves E (game s)))
               = (rootValue E depth (game s) m, Some m)
           \<and> (\<forall>m' \<in> set (moves E (game s)).
                 rootValue E depth (game s) m' \<le> rootValue E depth (game s) m)"
  using findBestMove_fullwidth [OF assms] fullwidthRoot_choice [OF assms] by auto

theorem C4_pruning_keeps_root_choice_witness:
  "(1::int) \<le> 3 \<and> draws zero_draws \<and> rules_contract tree_engine (nat 3) (game small_game)
   \<and> 0 < length (moves tree_engine (game small_game))
   \<and> findBestMove tree_engine 3 zero_draws small_game
       = Some (Returns (Some capture_move) (small_game\<lparr>nodeCount := 6\<rparr>))
   \<and> fullwidthRoot tree_engine 3 (game small_game) MInf None
         (orderMoves zero_draws (moves tree_engine (game small_game)))
       = (rootValue tree_engine 3 (game small_game) capture_move, Some capture_move)
   \<and> rootValue tree_engine 3 (game small_game) quiet_move
       \<le> rootValue tree_engine 3 (game small_game) capture_move"
proof -
  have pos: "0 < length (moves tree_engine (game small_game))"
    by (simp add: small_game_moves)
  from C4_pruning_keeps_root_choice [OF _ draws_zero small_game_contract pos]
  obtain m s' where "findBestMove tree_engine 3 zero_draws small_game = Some (Returns (Some m) s')"
    and "fullwidthRoot tree_engine 3 (game small_game) MInf None
           (orderMoves zero_draws (moves tree_engine (game small_game)))
         = (rootValue tree_engine 3 (game small_game) m, Some m)"
    and "\<forall>m' \<in> set (moves tree_engine (game small_game)).
           rootValue tree_engine 3 (game small_game) m' \<le> rootValue tree_engine 3 (game small_game) m"
    by auto
  with small_game_search have "fullwidthRoot tree_engine 3 (game small_game) MInf None
           (orderMoves zero_draws (moves tree_engine (game small_game)))
         = (rootValue tree_engine 3 (game small_game) capture_move, Some capture_move)"
    and "rootValue tree_engine 3 (game small_game) quiet_move
           \<le> rootValue tree_engine 3 (game small_game) capture_move"
    by (auto simp: small_game_moves)
  with draws_zero small_game_contract small_game_search pos show ?thesis
    by simp
qed

lemma bind_outcome_cong:
  assumes "\<And>v s2. x = Some (Returns v s2) \<Longrightarrow> f v s2 = g v s2"
  shows "Option.bind x (\<lambda>r. case r of Returns v s2 \<Rightarrow> f v s2 | Throws s' \<Rightarrow> h s')
         = Option.bind x (\<lambda>r. case r of Returns v s2 \<Rightarrow> g v s2 | Throws s' \<Rightarrow> h s')"
  using assms by (cases x) (auto split: outcome.splits)

lemma root_cutoff_needs_infinite_value:
  assumes "\<And>a (s1::'g quickchess) s2. minimax E (depth - 1) MInf a False s1 \<noteq> Some (Returns MInf s2)"
  shows "alpha \<noteq> PInf \<Longrightarrow>
         rootLoop E depth alpha PInf bestValue bestMove ms (s::'g quickchess)
         = rootLoop_no_break E depth alpha PInf bestValue bestMove ms s"
proof (induction ms arbitrary: alpha bestValue bestMove s)
  case Nil
  show ?case by simp
next
  case (Cons m rest)
  have finite: "max alpha (- v) \<noteq> PInf"
    if "minimax E (depth - 1) MInf (- alpha) False s1 = Some (Returns v s2)" for v s1 s2
  proof -
    from that assms have "v \<noteq> MInf" by auto
    then have "- v \<noteq> PInf" by (cases v) simp_all
    with Cons.prems show ?thesis by (auto simp: max_def)
  qed
  show ?case
    by (cases "move E (game s) m")
      (auto simp: Let_def finite Cons.IH intro!: bind_outcome_cong)
qed

text \<open>
  Claim C10: in \<^verbatim>\<open>findBestMove\<close> the bound \<^verbatim>\<open>beta\<close> stays at \<^verbatim>\<open>Infinity\<close>, so the test
  \<^verbatim>\<open>alpha >= beta\<close> of the root loop can succeed only on a root value of \<^verbatim>\<open>Infinity\<close>
  (\<open>root_cutoff_needs_infinite_value\<close>, for any game object), and where the evaluation
  scores are finite the root loop tries every ordered legal move. \<^verbatim>\<open>evaluatePosition\<close>
  returns a finite number in every position, and with a game object that applies the
  moves it lists the root loop does what it does with the \<^verbatim>\<open>break\<close> taken out, down to the
  node counter.
\<close>

theorem C10_root_cutoff_unreachable:
  assumes "1 \<le> depth" and "draws R" and "rules_contract E (nat depth) (game s)"
  shows "rootLoop E depth MInf PInf MInf None (orderMoves R (moves E (game s))) (s::'g quickchess)
         = rootLoop_no_break E depth MInf PInf MInf None (orderMoves R (moves E (game s))) s"
proof -
  define d where "d = nat (depth - 1)"
  have d: "depth = int (Suc d)" and nd: "nat depth = Suc d"
    using depth_Suc [OF assms(1)] by (simp_all only: d_def)
  from assms(3) have C: "rules_contract E (Suc d) (game s)" by (simp only: nd)
  have sub: "set (orderMoves R (moves E (game s))) \<subseteq> set (moves E (game s))"
    using assms(2) by (simp add: orderMoves_set)
  from rootLoop_never_breaks [OF C sub, of s MInf MInf None] show ?thesis
    by (simp only: d) simp
qed

theorem C10_root_cutoff_unreachable_witness:
  "(1::int) \<le> 3 \<and> draws zero_draws \<and> rules_contract tree_engine (nat 3) (game small_game)
   \<and> rootLoop_no_break tree_engine 3 MInf PInf MInf None
        (orderMoves zero_draws (moves tree_engine (game small_game))) small_game
      = Some (Returns (Some capture_move) (small_game\<lparr>nodeCount := 6\<rparr>))
   \<and> rootLoop tree_engine 3 MInf PInf MInf None
        (orderMoves zero_draws (moves tree_engine (game small_game))) small_game
      = Some (Returns (Some capture_move) (small_game\<lparr>nodeCount := 6\<rparr>))"
proof -
  have "rootLoop_no_break tree_engine 3 MInf PInf MInf None
        (orderMoves zero_draws (moves tree_engine (game small_game))) small_game
      = Some (Returns (Some capture_move) (small_game\<lparr>nodeCount := 6\<rparr>))"
    unfolding minimax_def by code_simp
  with C10_root_cutoff_unreachable [OF _ draws_zero small_game_contract]
    draws_zero small_game_contract
  show ?thesis by simp
qed

section \<open>The difficulty levels\<close>

text \<open>The index \<^verbatim>\<open>Math.floor(Math.random() * n)\<close> is \<open>k\<close> exactly when the draw lies in the
  \<open>k\<close>-th of \<open>n\<close> intervals of equal length.\<close>

lemma floor_index:
  assumes "0 < n"
  shows "(nat \<lfloor>r * real n\<rfloor> = k \<and> 0 \<le> r) \<longleftrightarrow> (real k / real n \<le> r \<and> r < (real k + 1) / real n)"
proof -
  have n: "0 < real n" using assms by simp
  have a: "(real k / real n \<le> r) = (real k \<le> r * real n)"
    using n by (simp add: pos_divide_le_eq)
  have b: "(r < (real k + 1) / real n) = (r * real n < real k + 1)"
    using n by (simp add: pos_less_divide_eq)
  show ?thesis
  proof
    assume l: "nat \<lfloor>r * real n\<rfloor> = k \<and> 0 \<le> r"
    then have "0 \<le> r * real n" using n by simp
    then have "0 \<le> \<lfloor>r * real n\<rfloor>" by simp
    then have "int (nat \<lfloor>r * real n\<rfloor>) = \<lfloor>r * real n\<rfloor>" by (rule nat_0_le)
    with l have "\<lfloor>r * real n\<rfloor> = int k" by (simp only:)
    then have "real k \<le> r * real n" "r * real n < real k + 1"
      by linarith+
    with a b show "real k / real n \<le> r \<and> r < (real k + 1) / real n" by simp
  next
    assume "real k / real n \<le> r \<and> r < (real k + 1) / real n"
    with a b have kr: "real k \<le> r * real n" "r * real n < real k + 1" by simp_all
    then have "\<lfloor>r * real n\<rfloor> = int k" by linarith
    moreover have "0 \<le> r"
    proof (rule ccontr)
      assume "\<not> 0 \<le> r"
      then have "r * real n < 0" using n by (simp add: mult_neg_pos)
      with kr(1) show False by simp
    qed
    ultimately show "nat \<lfloor>r * real n\<rfloor> = k \<and> 0 \<le> r" by simp
  qed
qed

lemma at_index_draw:
  assumes "k < length xs" and "real k / real (length xs) \<le> r" and "r < (real k + 1) / real (length xs)"
  shows "at_index xs (nat \<lfloor>r * real (length xs)\<rfloor>) = Some (xs ! k)"
proof -
  from assms(1) have "0 < length xs" by auto
  from floor_index [OF this, of r k] assms(2,3) have "nat \<lfloor>r * real (length xs)\<rfloor> = k" by simp
  with assms(1) show ?thesis by (simp add: at_index_def)
qed


lemma is_capture_moves [simp]: "is_capture capture_move" "\<not> is_capture quiet_move"
  by (simp_all add: is_capture_def capture_move_def quiet_move_def mk_move_def)

text \<open>
  Claim C6: the difficulty \<open>medium\<close> is \<^verbatim>\<open>findBestMove(2)\<close>, \<open>hard\<close> is \<^verbatim>\<open>findBestMove(3)\<close>,
  \<open>grandmaster\<close> is \<^verbatim>\<open>findBestMove(4)\<close>, and \<open>easy\<close> searches nothing: when there is a
  capture, with probability 0.3 it returns a capture chosen uniformly, and otherwise a
  move chosen uniformly from all legal moves. With the draws of \<^verbatim>\<open>Math.random\<close> as inputs
  this reads: the capture branch is taken when the first draw is below 0.3; the \<open>k\<close>-th
  of \<open>n\<close> captures is returned when the second draw falls in the \<open>k\<close>-th of \<open>n\<close> equal
  parts of the unit interval; and likewise for the \<open>k\<close>-th of all moves, on the second
  draw when there is a capture and on the first when there is none.
\<close>

theorem C6_difficulty_policy:
  "selectedMove E ''medium'' R ms s = findBestMove E 2 R s
   \<and> selectedMove E ''hard'' R ms s = findBestMove E 3 R s
   \<and> selectedMove E ''grandmaster'' R ms s = findBestMove E 4 R s
   \<and> selectedMove E ''easy'' R ms s = Some (Returns (getEasyMove R ms) s)
   \<and> (\<forall>k < length (filter is_capture ms).
         R 0 < 3 / 10
         \<and> real k / real (length (filter is_capture ms)) \<le> R 1
         \<and> R 1 < (real k + 1) / real (length (filter is_capture ms))
         \<longrightarrow> getEasyMove R ms = Some (filter is_capture ms ! k))
   \<and> (\<forall>k < length ms.
         filter is_capture ms \<noteq> [] \<and> 3 / 10 \<le> R 0
         \<and> real k / real (length ms) \<le> R 1 \<and> R 1 < (real k + 1) / real (length ms)
         \<longrightarrow> getEasyMove R ms = Some (ms ! k))
   \<and> (\<forall>k < length ms.
         filter is_capture ms = []
         \<and> real k / real (length ms) \<le> R 0 \<and> R 0 < (real k + 1) / real (length ms)
         \<longrightarrow> getEasyMove R ms = Some (ms ! k))"
proof -
  have "getEasyMove R ms = Some (filter is_capture ms ! k)"
    if "k < length (filter is_capture ms)" "R 0 < 3 / 10"
      "real k / real (length (filter is_capture ms)) \<le> R 1"
      "R 1 < (real k + 1) / real (length (filter is_capture ms))" for k
    using that at_index_draw [OF that(1,3,4)] by (auto simp: getEasyMove_def Let_def)
  moreover have "getEasyMove R ms = Some (ms ! k)"
    if "k < length ms" "filter is_capture ms \<noteq> []" "3 / 10 \<le> R 0"
      "real k / real (length ms) \<le> R 1" "R 1 < (real k + 1) / real (length ms)" for k
    using that at_index_draw [OF that(1,4,5)] by (auto simp: getEasyMove_def Let_def)
  moreover have "getEasyMove R ms = Some (ms ! k)"
    if "k < length ms" "filter is_capture ms = []"
      "real k / real (length ms) \<le> R 0" "R 0 < (real k + 1) / real (length ms)" for k
    using that at_index_draw [OF that(1,3,4)] by (auto simp: getEasyMove_def Let_def)
  ultimately show ?thesis
    by (simp add: selectedMove_def getMediumMove_def getHardMove_def getGrandmasterMove_def)
qed

theorem C6_difficulty_policy_witness:
  "(0::nat) < length (filter is_capture [capture_move, quiet_move])
   \<and> zero_draws 0 < 3 / 10
   \<and> real 0 / real (length (filter is_capture [capture_move, quiet_move])) \<le> zero_draws 1
   \<and> zero_draws 1 < (real 0 + 1) / real (length (filter is_capture [capture_move, quiet_move]))
   \<and> getEasyMove zero_draws [capture_move, quiet_move] = Some capture_move
   \<and> (1::nat) < length [capture_move, quiet_move]
   \<and> filter is_capture [capture_move, quiet_move] \<noteq> [] \<and> 3 / 10 \<le> half_draws 0
   \<and> real 1 / real (length [capture_move, quiet_move]) \<le> half_draws 1
   \<and> half_draws 1 < (real 1 + 1) / real (length [capture_move, quiet_move])
   \<and> getEasyMove half_draws [capture_move, quiet_move] = Some quiet_move
   \<and> selectedMove tree_engine ''hard'' zero_draws [capture_move, quiet_move] small_game
       = Some (Returns (Some capture_move) (small_game\<lparr>nodeCount := 6\<rparr>))"
  using C6_difficulty_policy [of tree_engine zero_draws "[capture_move, quiet_move]" small_game]
    C6_difficulty_policy [of tree_engine half_draws "[capture_move, quiet_move]" small_game]
    small_game_search
  by (simp add: zero_draws_def half_draws_def All_less_Suc)

section \<open>The shuffle is uniform\<close>

lemma pick_le:
  "draws R \<Longrightarrow> nat \<lfloor>R 0 * (real i + 1)\<rfloor> \<le> i"
  using draw_index [of "R 0" i] by (simp add: draws_def)

lemma shuffleFrom_length [simp]: "length (fst (shuffleFrom i R a)) = length a"
  by (induction i arbitrary: R a) (simp_all add: Let_def)

lemma shuffleFrom_rest: "snd (shuffleFrom i R a) = (\<lambda>k. R (k + i))"
  by (induction i arbitrary: R a) (simp_all add: Let_def o_def)

lemma shuffleFrom_above:
  "draws R \<Longrightarrow> i < k \<Longrightarrow> fst (shuffleFrom i R a) ! k = a ! k"
proof (induction i arbitrary: R a)
  case 0
  show ?case by simp
next
  case (Suc i)
  let ?j = "nat \<lfloor>R 0 * (real (Suc i) + 1)\<rfloor>"
  have j: "?j \<le> Suc i" using Suc.prems(1) by (rule pick_le)
  have "fst (shuffleFrom i (R \<circ> Suc) (a[Suc i := a ! ?j, ?j := a ! Suc i])) ! k
          = (a[Suc i := a ! ?j, ?j := a ! Suc i]) ! k"
    using Suc.prems by (intro Suc.IH) (simp_all add: draws_def)
  also have "\<dots> = a ! k" using j Suc.prems(2) by simp
  finally show ?case by (simp add: Let_def del: of_nat_Suc)
qed

lemma shuffleFrom_picks:
  "picks i R = picks i R' \<Longrightarrow> fst (shuffleFrom i R a) = fst (shuffleFrom i R' a)"
proof (induction i arbitrary: R R' a)
  case 0
  show ?case by simp
next
  case (Suc i)
  let ?j = "nat \<lfloor>R 0 * (real (Suc i) + 1)\<rfloor>"
  from Suc.prems have j: "?j = nat \<lfloor>R' 0 * (real (Suc i) + 1)\<rfloor>"
    and tl: "picks i (R \<circ> Suc) = picks i (R' \<circ> Suc)"
    by simp_all
  have "fst (shuffleFrom i (R \<circ> Suc) (a[Suc i := a ! ?j, ?j := a ! Suc i]))
          = fst (shuffleFrom i (R' \<circ> Suc) (a[Suc i := a ! ?j, ?j := a ! Suc i]))"
    using tl by (rule Suc.IH)
  with j show ?case
    by (simp add: Let_def del: of_nat_Suc)
qed

lemma swapped_last:
  assumes "j \<le> i" "i < length a"
  shows "(a[i := a ! j, j := a ! i]) ! i = a ! j"
  using assms by (cases "j = i") simp_all

lemma shuffleFrom_injective:
  "distinct a \<Longrightarrow> i < length a \<Longrightarrow> draws R \<Longrightarrow> draws R' \<Longrightarrow>
   fst (shuffleFrom i R a) = fst (shuffleFrom i R' a) \<Longrightarrow> picks i R = picks i R'"
proof (induction i arbitrary: R R' a)
  case 0
  show ?case by simp
next
  case (Suc i)
  let ?j = "nat \<lfloor>R 0 * (real (Suc i) + 1)\<rfloor>"
  let ?j' = "nat \<lfloor>R' 0 * (real (Suc i) + 1)\<rfloor>"
  let ?a = "a[Suc i := a ! ?j, ?j := a ! Suc i]"
  let ?a' = "a[Suc i := a ! ?j', ?j' := a ! Suc i]"
  have j: "?j \<le> Suc i" "?j' \<le> Suc i"
    using Suc.prems(3,4) by (simp_all only: pick_le)
  have tl: "draws (R \<circ> Suc)" "draws (R' \<circ> Suc)"
    using Suc.prems(3,4) by (simp_all add: draws_tail)
  from Suc.prems(5) have eq: "fst (shuffleFrom i (R \<circ> Suc) ?a) = fst (shuffleFrom i (R' \<circ> Suc) ?a')"
    by (simp add: Let_def del: of_nat_Suc)
  have "fst (shuffleFrom i (R \<circ> Suc) ?a) ! Suc i = ?a ! Suc i"
    using tl(1) by (rule shuffleFrom_above) simp
  moreover have "fst (shuffleFrom i (R' \<circ> Suc) ?a') ! Suc i = ?a' ! Suc i"
    using tl(2) by (rule shuffleFrom_above) simp
  ultimately have "?a ! Suc i = ?a' ! Suc i" using eq by simp
  then have "a ! ?j = a ! ?j'"
    using swapped_last [OF j(1) Suc.prems(2)] swapped_last [OF j(2) Suc.prems(2)] by simp
  with Suc.prems(1,2) j have jj: "?j = ?j'"
    by (simp add: nth_eq_iff_index_eq)
  have "distinct ?a" using Suc.prems(1,2) j(1) by (simp add: distinct_swap)
  moreover have "i < length ?a" using Suc.prems(2) by simp
  moreover from eq jj have "fst (shuffleFrom i (R \<circ> Suc) ?a) = fst (shuffleFrom i (R' \<circ> Suc) ?a)"
    by simp
  ultimately have "picks i (R \<circ> Suc) = picks i (R' \<circ> Suc)"
    using tl by (intro Suc.IH)
  with jj show ?case by simp
qed


lemma mset_take_swap:
  assumes "i < n" "j < n" "n \<le> length a"
  shows "mset (take n (a[i := a ! j, j := a ! i])) = mset (take n a)"
proof -
  have "take n (a[i := a ! j, j := a ! i]) = (take n a)[i := take n a ! j, j := take n a ! i]"
    using assms by (simp add: take_update_swap)
  then show ?thesis using assms mset_swap [of j "take n a" i] by simp
qed

lemma shuffleFrom_surjective:
  "distinct a \<Longrightarrow> i < length a \<Longrightarrow> length p = length a \<Longrightarrow>
   mset (take (Suc i) p) = mset (take (Suc i) a) \<Longrightarrow> drop (Suc i) p = drop (Suc i) a \<Longrightarrow>
   \<exists>R. draws R \<and> fst (shuffleFrom i R a) = p"
proof (induction i arbitrary: a p)
  case 0
  from 0 have "take (Suc 0) p = [p ! 0]" "take (Suc 0) a = [a ! 0]"
    by (simp_all add: take_Suc_conv_app_nth)
  with 0 have "p ! 0 = a ! 0" by simp
  moreover have "p ! 0 # drop (Suc 0) p = p"
    using 0(2,3) Cons_nth_drop_Suc [of 0 p] by simp
  moreover have "a ! 0 # drop (Suc 0) a = a"
    using 0(2) Cons_nth_drop_Suc [of 0 a] by simp
  ultimately have "p = a" using 0(5) by metis
  then show ?case using draws_zero by auto
next
  case (Suc i)
  let ?n = "Suc (Suc i)"
  let ?x = "p ! Suc i"
  have n: "?n \<le> length a" "?n \<le> length p" using Suc.prems by simp_all
  have "?x \<in> set (take ?n p)"
    using n by (auto simp: in_set_conv_nth intro!: exI [of _ "Suc i"])
  then have "?x \<in> set (take ?n a)"
    using Suc.prems(4) by (metis set_mset_mset)
  then obtain j where j: "j < ?n" "a ! j = ?x"
    using n by (auto simp: in_set_conv_nth)
  let ?a = "a[Suc i := a ! j, j := a ! Suc i]"
  have jle: "j \<le> Suc i" using j(1) by simp
  have last: "?a ! Suc i = ?x"
    using swapped_last [OF jle Suc.prems(2)] j(2) by simp
  have dist: "distinct ?a" using Suc.prems(1,2) jle by (simp add: distinct_swap)
  have len: "i < length ?a" "length p = length ?a" using Suc.prems by simp_all
  have "drop ?n ?a = drop ?n a" using jle by simp
  then have "drop (Suc i) ?a = ?x # drop ?n a"
    using last Suc.prems(2) Cons_nth_drop_Suc [of "Suc i" ?a] by simp
  moreover have "drop (Suc i) p = ?x # drop ?n a"
    using Suc.prems(2,3,5) Cons_nth_drop_Suc [of "Suc i" p] by simp
  ultimately have dr: "drop (Suc i) p = drop (Suc i) ?a" by simp
  have "mset (take ?n ?a) = mset (take ?n a)"
    using jle n(1) by (intro mset_take_swap) simp_all
  moreover have "take ?n ?a = take (Suc i) ?a @ [?x]"
    using last Suc.prems(2) take_Suc_conv_app_nth [of "Suc i" ?a] by simp
  moreover have "take ?n p = take (Suc i) p @ [?x]"
    using Suc.prems(2,3) take_Suc_conv_app_nth [of "Suc i" p] by simp
  ultimately have "add_mset ?x (mset (take (Suc i) p)) = add_mset ?x (mset (take (Suc i) ?a))"
    using Suc.prems(4) by simp
  then have tk: "mset (take (Suc i) p) = mset (take (Suc i) ?a)"
    by (simp only: add_mset_add_mset_same_iff)
  from Suc.IH [OF dist len tk dr]
  obtain R1 where R1: "draws R1" "fst (shuffleFrom i R1 ?a) = p" by blast
  define R where "R = case_nat (real j / (real (Suc i) + 1)) R1"
  have R0: "R 0 * (real (Suc i) + 1) = real j" and Rtl: "R \<circ> Suc = R1"
    by (simp_all add: R_def o_def)
  have "real j / (real (Suc i) + 1) < 1" using jle by simp
  then have "draws R" using R1(1) by (auto simp: draws_def R_def split: nat.splits)
  moreover have "fst (shuffleFrom (Suc i) R a) = p"
    using R1(2) by (simp add: Let_def R0 Rtl del: of_nat_Suc)
  ultimately show ?case by blast
qed


lemma picks_local:
  "(\<And>k. k < i \<Longrightarrow> R k = R' k) \<Longrightarrow> picks i R = picks i R'"
proof (induction i arbitrary: R R')
  case 0
  show ?case by simp
next
  case (Suc i)
  have "picks i (R \<circ> Suc) = picks i (R' \<circ> Suc)"
    using Suc.prems by (intro Suc.IH) simp
  moreover have "R 0 = R' 0" using Suc.prems by simp
  ultimately show ?case by simp
qed

lemma shuffleArray_surjective:
  assumes "distinct a" and "mset p = mset a"
  shows "\<exists>R. draws R \<and> fst (shuffleArray R a) = p"
proof (cases "a = []")
  case True
  with assms(2) draws_zero show ?thesis
    by (auto simp: shuffleArray_def)
next
  case False
  from assms(2) have len: "length p = length a" by (rule mset_eq_length)
  from False have i: "length a - 1 < length a" "Suc (length a - 1) = length a" by simp_all
  from shuffleFrom_surjective [OF assms(1) i(1) len] assms(2) len i(2)
  show ?thesis by (simp add: shuffleArray_def)
qed

lemma shuffleArray_injective:
  assumes "distinct a" and "draws R" and "draws R'"
  shows "(fst (shuffleArray R a) = fst (shuffleArray R' a))
         = (picks (length a - 1) R = picks (length a - 1) R')"
proof (cases "a = []")
  case True
  then show ?thesis by (simp add: shuffleArray_def)
next
  case False
  then have "length a - 1 < length a" by simp
  from shuffleFrom_injective [OF assms(1) this assms(2,3)] shuffleFrom_picks [of "length a - 1" R R' a]
  show ?thesis by (auto simp: shuffleArray_def)
qed

lemma shuffleArray_rest: "snd (shuffleArray R a) = (\<lambda>k. R (k + (length a - 1)))"
  by (simp add: shuffleArray_def shuffleFrom_rest)

lemma orderMoves_surjective:
  assumes "distinct ms" and "mset cs = mset (filter is_capture ms)"
    and "mset os = mset (filter (\<lambda>m. \<not> is_capture m) ms)"
  shows "\<exists>R. draws R \<and> orderMoves R ms = cs @ os"
proof -
  let ?cs = "filter is_capture ms" and ?os = "filter (\<lambda>m. \<not> is_capture m) ms"
  let ?n = "length ?cs - 1"
  from shuffleArray_surjective [OF _ assms(2)] assms(1)
  obtain R1 where R1: "draws R1" "fst (shuffleArray R1 ?cs) = cs" by auto
  from shuffleArray_surjective [OF _ assms(3)] assms(1)
  obtain R2 where R2: "draws R2" "fst (shuffleArray R2 ?os) = os" by auto
  define R where "R k = (if k < ?n then R1 k else R2 (k - ?n))" for k
  have "draws R" using R1(1) R2(1) by (simp add: draws_def R_def)
  moreover have "picks ?n R = picks ?n R1"
    by (rule picks_local) (simp add: R_def)
  then have "fst (shuffleArray R ?cs) = cs"
    using R1(2) shuffleFrom_picks [of ?n R R1 ?cs] by (simp add: shuffleArray_def)
  moreover have "snd (shuffleArray R ?cs) = R2"
    by (simp add: shuffleArray_rest R_def)
  ultimately show ?thesis using R2(2) by (auto simp: orderMoves_split)
qed

lemma orderMoves_injective:
  assumes "distinct ms" and "draws R" and "draws R'"
  shows "(orderMoves R' ms = orderMoves R ms) = (orderPicks R' ms = orderPicks R ms)"
proof -
  let ?cs = "filter is_capture ms" and ?os = "filter (\<lambda>m. \<not> is_capture m) ms"
  let ?T = "snd (shuffleArray R ?cs)" and ?T' = "snd (shuffleArray R' ?cs)"
  have len: "length (fst (shuffleArray R' ?cs)) = length (fst (shuffleArray R ?cs))"
    by (simp add: shuffleArray_def)
  have "(orderMoves R' ms = orderMoves R ms)
        = (fst (shuffleArray R' ?cs) = fst (shuffleArray R ?cs)
           \<and> fst (shuffleArray ?T' ?os) = fst (shuffleArray ?T ?os))"
    using len by (simp add: orderMoves_split)
  also have "\<dots> = (picks (length ?cs - 1) R' = picks (length ?cs - 1) R
                   \<and> picks (length ?os - 1) ?T' = picks (length ?os - 1) ?T)"
    using assms shuffleArray_injective [of ?cs R' R] shuffleArray_injective [of ?os ?T' ?T]
    by (simp add: shuffleArray_draws)
  finally show ?thesis by (simp add: orderPicks_def Let_def)
qed

lemma pick_interval:
  assumes "draws R"
  shows "(hd (picks (Suc i) R) = j)
         = (real j / (real (Suc i) + 1) \<le> R 0 \<and> R 0 < (real j + 1) / (real (Suc i) + 1))"
proof -
  from assms(1) have "0 \<le> R 0" by (simp add: draws_def)
  with floor_index [of "Suc (Suc i)" "R 0" j] show ?thesis
    by (simp add: add.commute)
qed


text \<open>
  Claim C7: \<^verbatim>\<open>orderMoves(moves)\<close> returns a permutation of its input in which every capture
  comes before every other move, each of the two groups being shuffled uniformly. With
  the draws of \<^verbatim>\<open>Math.random\<close> as inputs, uniformity is the statement that the outcomes
  correspond one to one to the sequences of indices drawn: the result is the captures in
  some order followed by the other moves in some order; for distinct moves every such
  pair of orders is the result for some draws, and two sequences of draws give the same
  result exactly when they pick the same indices. A pick at loop index \<open>i\<close> is \<open>j\<close>
  exactly when the draw lies in the \<open>j\<close>-th of the \<open>i + 1\<close> equal parts of the unit
  interval, so that with independent uniform draws every outcome has the same
  probability.
\<close>

theorem C7_orderMoves_captures_first_shuffled:
  assumes "draws R"
  shows "mset (orderMoves R ms) = mset ms
    \<and> (\<exists>cs os. orderMoves R ms = cs @ os \<and> mset cs = mset (filter is_capture ms)
                 \<and> mset os = mset (filter (\<lambda>m. \<not> is_capture m) ms))
    \<and> (distinct ms \<longrightarrow>
         (\<forall>cs os. mset cs = mset (filter is_capture ms)
                   \<and> mset os = mset (filter (\<lambda>m. \<not> is_capture m) ms)
                   \<longrightarrow> (\<exists>R'. draws R' \<and> orderMoves R' ms = cs @ os)))
    \<and> (distinct ms \<longrightarrow>
         (\<forall>R'. draws R' \<longrightarrow>
                (orderMoves R' ms = orderMoves R ms) = (orderPicks R' ms = orderPicks R ms)))
    \<and> (\<forall>i j. (hd (picks (Suc i) R) = j)
               = (real j / (real (Suc i) + 1) \<le> R 0 \<and> R 0 < (real j + 1) / (real (Suc i) + 1)))"
proof -
  have "\<exists>cs os. orderMoves R ms = cs @ os \<and> mset cs = mset (filter is_capture ms)
                 \<and> mset os = mset (filter (\<lambda>m. \<not> is_capture m) ms)"
    using assms
    by (intro exI [of _ "fst (shuffleArray R (filter is_capture ms))"]
          exI [of _ "fst (shuffleArray (snd (shuffleArray R (filter is_capture ms)))
                          (filter (\<lambda>m. \<not> is_capture m) ms))"])
       (simp add: orderMoves_split shuffleArray_mset shuffleArray_draws)
  then show ?thesis
    using orderMoves_mset [OF assms, of ms] orderMoves_surjective [of ms]
      orderMoves_injective [OF _ assms, of ms] pick_interval [OF assms]
    by blast
qed

lemma sample_moves_distinct: "distinct sample_moves"
  by (simp add: sample_moves_def quiet_move_def capture_move_def king_move_def mk_move_def)

lemma sample_moves_groups:
  "filter is_capture sample_moves = [capture_move]"
  "filter (\<lambda>m. \<not> is_capture m) sample_moves = [quiet_move, king_move]"
  by (simp_all add: sample_moves_def is_capture_def quiet_move_def capture_move_def
      king_move_def mk_move_def)

lemma sample_moves_half: "orderMoves half_draws sample_moves = [capture_move, quiet_move, king_move]"
  by (simp add: orderMoves_split sample_moves_groups shuffleArray_def Let_def half_draws_def)

theorem C7_orderMoves_captures_first_shuffled_witness:
  "draws half_draws \<and> distinct sample_moves
   \<and> mset (orderMoves half_draws sample_moves) = mset sample_moves
   \<and> orderMoves half_draws sample_moves = [capture_move] @ [quiet_move, king_move]
   \<and> mset [capture_move] = mset (filter is_capture sample_moves)
   \<and> mset [king_move, quiet_move] = mset (filter (\<lambda>m. \<not> is_capture m) sample_moves)
   \<and> (\<exists>R'. draws R' \<and> orderMoves R' sample_moves = [capture_move] @ [king_move, quiet_move])
   \<and> draws zero_draws
   \<and> (orderMoves zero_draws sample_moves = orderMoves half_draws sample_moves)
       = (orderPicks zero_draws sample_moves = orderPicks half_draws sample_moves)
   \<and> (hd (picks (Suc 0) half_draws) = 1)
       = (real 1 / (real (Suc 0) + 1) \<le> half_draws 0
          \<and> half_draws 0 < (real 1 + 1) / (real (Suc 0) + 1))"
proof -
  note T = C7_orderMoves_captures_first_shuffled [OF draws_half, of sample_moves]
  have m1: "mset [capture_move] = mset (filter is_capture sample_moves)"
    and m2: "mset [king_move, quiet_move] = mset (filter (\<lambda>m. \<not> is_capture m) sample_moves)"
    by (simp_all add: sample_moves_groups)
  from T sample_moves_distinct m1 m2
  have ex: "\<exists>R'. draws R' \<and> orderMoves R' sample_moves = [capture_move] @ [king_move, quiet_move]"
    by blast
  from T sample_moves_distinct draws_zero
  have inj: "(orderMoves zero_draws sample_moves = orderMoves half_draws sample_moves)
       = (orderPicks zero_draws sample_moves = orderPicks half_draws sample_moves)"
    by blast
  from T have pk: "(hd (picks (Suc 0) half_draws) = 1)
       = (real 1 / (real (Suc 0) + 1) \<le> half_draws 0
          \<and> half_draws 0 < (real 1 + 1) / (real (Suc 0) + 1))"
    by blast
  from T have "mset (orderMoves half_draws sample_moves) = mset sample_moves"
    by blast
  with draws_half draws_zero sample_moves_distinct sample_moves_half m1 m2 ex inj pk
  show ?thesis by simp
qed

end
